theory Spec2Isabelle
  imports Main "HOL-Library.Sublist" "HOL-Library.Char_ord" "HOL-Library.List_Lexorder"
begin

section \<open>The set builtin of the fish shell (builtin_set.cpp)\<close>

text \<open>
  Wide strings (\<open>wcstring\<close>, \<open>const wchar_t *\<close>) are modelled as \<open>string\<close>, a
  list of characters; reading at the end of a C string yields the terminating NUL.
  A \<open>wcstring_list_t\<close> is a list of strings, a \<open>std::vector<long>\<close> a list of
  integers. An output stream is the list of the pieces appended to it, in order: one
  piece for each \<open>append\<close>, \<open>append_format\<close> or \<open>push_back\<close>. Message
  catalogues are left out: \<open>_(msg)\<close> is \<open>msg\<close>. Memory is unbounded: a
  \<open>resize\<close> or a \<open>push_back\<close> never fails.
\<close>

type_synonym wcstring = string
type_synonym wcstring_list_t = "string list"

subsection \<open>C strings and the C library\<close>

text \<open>\<open>*src\<close>: the first character, or NUL at the end of the string.\<close>

definition peek :: "string \<Rightarrow> char" where
  "peek s = (case s of [] \<Rightarrow> CHR 0x00 | c # _ \<Rightarrow> c)"

text \<open>The character classes of the C library, in the C locale.\<close>

definition iswspace :: "char \<Rightarrow> bool" where
  "iswspace c \<longleftrightarrow>
     c = CHR '' '' \<or> c = CHR 0x09 \<or> c = CHR 0x0A \<or> c = CHR 0x0B \<or> c = CHR 0x0C \<or> c = CHR 0x0D"

definition iswdigit :: "char \<Rightarrow> bool" where
  "iswdigit c \<longleftrightarrow> (48::nat) \<le> of_char c \<and> of_char c \<le> (57::nat)"

definition iswalnum :: "char \<Rightarrow> bool" where
  "iswalnum c \<longleftrightarrow>
     iswdigit c \<or> ((65::nat) \<le> of_char c \<and> of_char c \<le> (90::nat))
     \<or> ((97::nat) \<le> of_char c \<and> of_char c \<le> (122::nat))"

definition LONG_MAX :: int where "LONG_MAX = 2 ^ 63 - 1"
definition LONG_MIN :: int where "LONG_MIN = - (2 ^ 63)"
definition INT_MAX :: int where "INT_MAX = 2 ^ 31 - 1"
definition EINVAL :: int where "EINVAL = 22"
definition ERANGE :: int where "ERANGE = 34"
definition ENOTDIR :: int where "ENOTDIR = 20"

text \<open>
  The conversion of an unsigned 64-bit value to \<open>long\<close>: \<open>var_count + l_ind + 1\<close>
  is computed in \<open>size_t\<close> and stored in a \<open>long\<close>.
\<close>

definition to_long :: "int \<Rightarrow> int" where
  "to_long x = (x + 2 ^ 63) mod 2 ^ 64 - 2 ^ 63"

text \<open>A value that a \<open>long\<close> holds.\<close>

definition in_long :: "int \<Rightarrow> bool" where
  "in_long x \<longleftrightarrow> LONG_MIN \<le> x \<and> x \<le> LONG_MAX"

definition digits_value :: "string \<Rightarrow> int" where
  "digits_value ds = foldl (\<lambda>a c. 10 * a + (int (of_char c) - 48)) 0 ds"

text \<open>
  \<open>wcstol(str, &endptr, 10)\<close> of the C library: the value, the rest of the string
  and \<open>errno\<close>. White space, an optional sign and decimal digits are read; with no
  digit nothing is consumed; a value outside \<open>long\<close> is clamped and sets
  \<open>ERANGE\<close>.
\<close>

definition wcstol :: "string \<Rightarrow> int \<times> string \<times> int" where
  "wcstol str =
     (let s = dropWhile iswspace str;
          neg = (peek s = CHR ''-'');
          t = (if peek s = CHR ''-'' \<or> peek s = CHR ''+'' then tl s else s);
          ds = takeWhile iswdigit t;
          v = (if neg then - digits_value ds else digits_value ds)
      in if ds = [] then (0, str, 0)
         else if v > LONG_MAX then (LONG_MAX, dropWhile iswdigit t, ERANGE)
         else if v < LONG_MIN then (LONG_MIN, dropWhile iswdigit t, ERANGE)
         else (v, dropWhile iswdigit t, 0))"

text \<open>
  Modelled from the spec: \<open>fish_wcstol\<close> (wutil.cpp is not under src/). An index
  is a signed integer (section 4.1); the comment in \<open>parse_index\<close> gives the
  convention for \<open>errno\<close>: a positive value is a failure to read an integer, and
  \<open>-1\<close> says that an integer was read and the string goes on after it. White
  space on either side of the integer is skipped. The result is the value, the end
  pointer and \<open>errno\<close>.
\<close>

definition fish_wcstol :: "string \<Rightarrow> int \<times> string \<times> int" where
  "fish_wcstol str0 =
     (let str = dropWhile iswspace str0 in
      if str = [] then (0, str, EINVAL)
      else
        case wcstol str of (result, endptr0, errno0) \<Rightarrow>
          let endptr = dropWhile iswspace endptr0;
              errno = (if errno0 = 0 \<and> endptr \<noteq> []
                       then (if length endptr = length str then EINVAL else - 1)
                       else errno0)
          in (result, endptr, errno))"

text \<open>Decimal output of a \<open>%d\<close> conversion (the values printed are not negative).\<close>

function show_nat :: "nat \<Rightarrow> string" where
  "show_nat n =
     (if n < 10 then [char_of (48 + n)] else show_nat (n div 10) @ [char_of (48 + n mod 10)])"
  by pat_completeness auto
termination
  by (relation "measure id") auto

declare show_nat.simps [simp del]

subsection \<open>Messages\<close>

definition BUILTIN_SET_PATH_ERROR :: "string \<Rightarrow> string \<Rightarrow> string \<Rightarrow> string \<Rightarrow> string" where
  "BUILTIN_SET_PATH_ERROR cmd key dir reason =
     cmd @ '': Warning: $'' @ key @ '' entry '' @ [CHR 0x22] @ dir @ [CHR 0x22]
       @ '' is not valid ('' @ reason @ '')'' @ [CHR 0x0A]"

definition BUILTIN_SET_PATH_HINT :: "string \<Rightarrow> string \<Rightarrow> string \<Rightarrow> string \<Rightarrow> string" where
  "BUILTIN_SET_PATH_HINT cmd key key2 rest =
     cmd @ '': Did you mean '' @ [CHR 0x27] @ ''set '' @ key @ '' $'' @ key2 @ '' '' @ rest
       @ [CHR 0x27] @ ''?'' @ [CHR 0x0A]"

definition BUILTIN_SET_ARG_COUNT :: "string \<Rightarrow> string" where
  "BUILTIN_SET_ARG_COUNT cmd =
     cmd @ '': The number of variable indexes does not match the number of values''
       @ [CHR 0x0A]"

text \<open>
  Modelled from the spec: the message macros \<open>BUILTIN_ERR_COMBO\<close>,
  \<open>BUILTIN_ERR_GLOCAL\<close>, \<open>BUILTIN_ERR_EXPUNEXP\<close>, \<open>BUILTIN_ERR_VARNAME\<close>
  and \<open>ARRAY_BOUNDS_ERR\<close>, and the functions \<open>builtin_missing_argument\<close> and
  \<open>builtin_unknown_option\<close> (builtin.h and builtin.cpp are not under src/).
  Section 7 has every error written with the name of the invoking command in front;
  the source passes that name as the first argument of each format, and prints the
  prefix itself before \<open>ARRAY_BOUNDS_ERR\<close>.
\<close>

definition BUILTIN_ERR_COMBO :: "string \<Rightarrow> string" where
  "BUILTIN_ERR_COMBO cmd = cmd @ '': Invalid combination of options'' @ [CHR 0x0A]"

definition BUILTIN_ERR_GLOCAL :: "string \<Rightarrow> string" where
  "BUILTIN_ERR_GLOCAL cmd =
     cmd @ '': Variable scope can only be one of universal, global and local'' @ [CHR 0x0A]"

definition BUILTIN_ERR_EXPUNEXP :: "string \<Rightarrow> string" where
  "BUILTIN_ERR_EXPUNEXP cmd =
     cmd @ '': Variable can'' @ [CHR 0x27] @ ''t be both exported and unexported''
       @ [CHR 0x0A]"

definition BUILTIN_ERR_VARNAME :: "string \<Rightarrow> string \<Rightarrow> string" where
  "BUILTIN_ERR_VARNAME cmd name =
     cmd @ '': Variable name '' @ [CHR 0x27] @ name @ [CHR 0x27] @ '' is not valid''
       @ [CHR 0x0A]"

definition ARRAY_BOUNDS_ERR :: string where
  "ARRAY_BOUNDS_ERR = ''Array index out of bounds''"

definition BUILTIN_ERR_MISSING :: "string \<Rightarrow> string \<Rightarrow> string" where
  "BUILTIN_ERR_MISSING cmd opt = cmd @ '': Expected argument for option '' @ opt @ [CHR 0x0A]"

definition BUILTIN_ERR_UNKNOWN :: "string \<Rightarrow> string \<Rightarrow> string" where
  "BUILTIN_ERR_UNKNOWN cmd opt =
     cmd @ '': Unknown option '' @ [CHR 0x27] @ opt @ [CHR 0x27] @ [CHR 0x0A]"

text \<open>
  Modelled from the spec: the exit statuses \<open>STATUS_CMD_OK\<close>,
  \<open>STATUS_CMD_ERROR\<close> and \<open>STATUS_INVALID_ARGS\<close> (common.h is not under src/):
  0 on success and a fixed nonzero status for a failure (section 6). The source
  tests \<open>!retcode\<close> for success.
\<close>

definition STATUS_CMD_OK :: int where "STATUS_CMD_OK = 0"
definition STATUS_CMD_ERROR :: int where "STATUS_CMD_ERROR = 1"
definition STATUS_INVALID_ARGS :: int where "STATUS_INVALID_ARGS = 2"

subsection \<open>The collaborators of the builtin\<close>

text \<open>
  The mode flags of the variable store (\<open>ENV_DEFAULT\<close> is the empty set, \<open>|\<close> is
  union) and the results of \<open>env_set\<close>.
\<close>

datatype env_mode_flag =
  ENV_LOCAL | ENV_EXPORT | ENV_UNEXPORT | ENV_GLOBAL | ENV_USER | ENV_UNIVERSAL

type_synonym env_mode_flags_t = "env_mode_flag set"

datatype env_set_ret = ENV_OK | ENV_PERM | ENV_SCOPE | ENV_INVALID

text \<open>
  The functions the builtin calls and that are not under src/ are parameters of the
  model, collected in one record; \<open>'st\<close> is the state of the variable store. An
  \<open>env_var_t\<close> is a \<open>string option\<close>, \<open>None\<close> for a missing variable.
  \<open>env_set\<close> takes \<open>None\<close> for a NULL value. \<open>wstat\<close> gives \<open>errno\<close> on
  failure and \<open>S_ISDIR\<close> of the mode otherwise; \<open>waccess\<close> (called with
  \<open>X_OK\<close>) gives \<open>errno\<close> on failure. \<open>escape_string\<close> is the call with flags
  0, \<open>escape_string_script\<close> the call with \<open>ESCAPE_NO_QUOTED\<close> and
  \<open>STRING_STYLE_SCRIPT\<close>. \<open>builtin_print_help\<close> gives the text it appends to
  the stream it is given.
\<close>

record 'st externals =
  env_get_string :: "'st \<Rightarrow> string \<Rightarrow> env_mode_flags_t \<Rightarrow> string option"
  env_exist :: "'st \<Rightarrow> string \<Rightarrow> env_mode_flags_t \<Rightarrow> bool"
  env_get_names :: "'st \<Rightarrow> env_mode_flags_t \<Rightarrow> string list"
  env_set :: "'st \<Rightarrow> string \<Rightarrow> string option \<Rightarrow> env_mode_flags_t \<Rightarrow> env_set_ret \<times> 'st"
  env_remove :: "'st \<Rightarrow> string \<Rightarrow> env_mode_flags_t \<Rightarrow> int \<times> 'st"
  tokenize_variable_array :: "string \<Rightarrow> wcstring_list_t"
  list_to_array_val :: "wcstring_list_t \<Rightarrow> string"
  ENV_NULL :: string
  wstat :: "string \<Rightarrow> int + bool"
  waccess :: "string \<Rightarrow> int option"
  strerror :: "int \<Rightarrow> string"
  escape_string :: "string \<Rightarrow> string"
  escape_string_script :: "string \<Rightarrow> string"
  expand_escape_variable :: "string \<Rightarrow> string"
  ellipsis_char :: char
  valid_var_name :: "string \<Rightarrow> bool"
  builtin_print_help :: "string \<Rightarrow> string"
  shell_is_interactive :: bool
  proc_get_last_status :: int

definition builtin_missing_argument :: "'st externals \<Rightarrow> string \<Rightarrow> string \<Rightarrow> string list" where
  "builtin_missing_argument X cmd opt = [BUILTIN_ERR_MISSING cmd opt, builtin_print_help X cmd]"

definition builtin_unknown_option :: "'st externals \<Rightarrow> string \<Rightarrow> string \<Rightarrow> string list" where
  "builtin_unknown_option X cmd opt = [BUILTIN_ERR_UNKNOWN cmd opt, builtin_print_help X cmd]"

subsection \<open>my_env_set\<close>

definition is_path_variable :: "string \<Rightarrow> bool" where
  "is_path_variable env \<longleftrightarrow> env \<in> set [''PATH'', ''CDPATH'']"

definition string_prefixes_string :: "string \<Rightarrow> string \<Rightarrow> bool" where
  "string_prefixes_string proposed_prefix val \<longleftrightarrow>
     take (length proposed_prefix) val = proposed_prefix"

text \<open>
  The test of one directory (the chain \<open>wstat\<close>, \<open>S_ISDIR\<close>, \<open>waccess\<close>):
  \<open>None\<close> when there is no error, the value of \<open>errno\<close> otherwise.
\<close>

definition path_entry_errno :: "'st externals \<Rightarrow> string \<Rightarrow> int option" where
  "path_entry_errno X dir =
     (case wstat X dir of
        Inl errno \<Rightarrow> Some errno
      | Inr is_dir \<Rightarrow> if \<not> is_dir then Some ENOTDIR else waccess X dir)"

text \<open>What the loop writes to the error stream for a directory that fails the test.\<close>

definition path_entry_messages :: "'st externals \<Rightarrow> string \<Rightarrow> string \<Rightarrow> int \<Rightarrow> string list" where
  "path_entry_messages X key dir errno =
     (let colon = dropWhile (\<lambda>c. c \<noteq> CHR '':'') dir;
          show_hint = (colon \<noteq> [] \<and> tl colon \<noteq> [])
      in BUILTIN_SET_PATH_ERROR ''set'' key dir (strerror X errno)
         # (if show_hint then [BUILTIN_SET_PATH_HINT ''set'' key key (tl colon)] else []))"

text \<open>
  The loop over the values of a path variable: \<open>any_success\<close> as the loop leaves
  it, and the pieces written to the error stream.
\<close>

fun validate_path_loop ::
  "'st externals \<Rightarrow> string \<Rightarrow> wcstring_list_t \<Rightarrow> wcstring_list_t \<Rightarrow> bool
   \<Rightarrow> bool \<times> string list" where
  "validate_path_loop X key existing_values [] any_success = (any_success, [])"
| "validate_path_loop X key existing_values (dir # rest) any_success =
     (if \<not> string_prefixes_string ''/'' dir \<or> dir \<in> set existing_values
      then validate_path_loop X key existing_values rest True
      else
        case path_entry_errno X dir of
          None \<Rightarrow> validate_path_loop X key existing_values rest True
        | Some errno \<Rightarrow>
            (case validate_path_loop X key existing_values rest any_success of
               (any_success', later) \<Rightarrow>
                 (any_success', path_entry_messages X key dir errno @ later)))"

text \<open>
  The values already present, read in the default scope: empty when the variable is
  missing or empty.
\<close>

definition path_existing_values :: "'st externals \<Rightarrow> 'st \<Rightarrow> string \<Rightarrow> wcstring_list_t" where
  "path_existing_values X st key =
     (case env_get_string X st key {} of
        None \<Rightarrow> []
      | Some v \<Rightarrow> if v = [] then [] else tokenize_variable_array X v)"

text \<open>
  The call of \<open>env_set\<close> at the end of \<open>my_env_set\<close>: the list as an array
  value, or NULL for the empty list.
\<close>

definition env_set_list ::
  "'st externals \<Rightarrow> 'st \<Rightarrow> string \<Rightarrow> wcstring_list_t \<Rightarrow> env_mode_flags_t
   \<Rightarrow> env_set_ret \<times> 'st" where
  "env_set_list X st key values scope =
     (let val = list_to_array_val X values
      in env_set X st key (if val = ENV_NULL X then None else Some val) (scope \<union> {ENV_USER}))"

text \<open>
  The switch over the value \<open>env_set\<close> returns: the return code and what is
  written to the error stream. The \<open>default\<close> branch is not reachable:
  \<open>env_set\<close> returns one of the four codes.
\<close>

definition env_set_status :: "string \<Rightarrow> env_set_ret \<Rightarrow> int \<times> string list" where
  "env_set_status key retcode =
     (case retcode of
        ENV_OK \<Rightarrow> (STATUS_CMD_OK, [])
      | ENV_PERM \<Rightarrow>
          (STATUS_CMD_ERROR,
           [''set: Tried to change the read-only variable '' @ [CHR 0x27] @ key @ [CHR 0x27]
              @ [CHR 0x0A]])
      | ENV_SCOPE \<Rightarrow>
          (STATUS_CMD_ERROR,
           [''set: Tried to set the special variable '' @ [CHR 0x27] @ key @ [CHR 0x27]
              @ '' with the wrong scope'' @ [CHR 0x0A]])
      | ENV_INVALID \<Rightarrow>
          (STATUS_CMD_ERROR,
           [''set: Tried to set the special variable '' @ [CHR 0x27] @ key @ [CHR 0x27]
              @ '' to an invalid value'' @ [CHR 0x0A]]))"

text \<open>
  \<open>my_env_set\<close>: the return code, the store and the pieces written to the error
  stream.
\<close>

definition my_env_set ::
  "'st externals \<Rightarrow> 'st \<Rightarrow> string \<Rightarrow> wcstring_list_t \<Rightarrow> env_mode_flags_t
   \<Rightarrow> int \<times> 'st \<times> string list" where
  "my_env_set X st key values scope =
     (let checked =
            (if is_path_variable key
             then validate_path_loop X key (path_existing_values X st key) values False
             else (True, []))
      in if is_path_variable key \<and> values \<noteq> [] \<and> \<not> fst checked
         then (STATUS_CMD_ERROR, st, snd checked)
         else
           case env_set_list X st key values scope of
             (retcode, st') \<Rightarrow>
               (fst (env_set_status key retcode), st',
                snd checked @ snd (env_set_status key retcode)))"

subsection \<open>parse_index\<close>

text \<open>
  The loop of a range: \<open>for (jjj = l_ind; jjj * direction <= l_ind2 * direction;
  jjj += direction)\<close>, giving the values pushed. \<open>jjj\<close> and the two products are
  \<open>long\<close>: where one of them leaves the range of \<open>long\<close> the behaviour is
  undefined and the result is \<open>None\<close> (with the usual wrap-around the test stays
  true and the loop does not end). The source sets \<open>direction\<close> to 1 or -1; the
  test on it here only makes the function total.
\<close>

function expand_range :: "int \<Rightarrow> int \<Rightarrow> int \<Rightarrow> int list option" where
  "expand_range jjj l_ind2 direction =
     (if \<not> in_long (jjj * direction) \<or> \<not> in_long (l_ind2 * direction) then None
      else if (direction = 1 \<or> direction = - 1) \<and> jjj * direction \<le> l_ind2 * direction
      then (if \<not> in_long (jjj + direction) then None
            else map_option ((#) jjj) (expand_range (jjj + direction) l_ind2 direction))
      else Some [])"
  by pat_completeness auto
termination
  by (relation "measure (\<lambda>(jjj, l_ind2, direction). nat (l_ind2 * direction - jjj * direction + 1))")
     (auto simp: algebra_simps)

declare expand_range.simps [simp del]

lemma length_dropWhile_le: "length (dropWhile P xs) \<le> length xs"
  by (induction xs) auto

lemma wcstol_end:
  "wcstol s = (v, e, n) \<Longrightarrow> length e \<le> length s"
proof -
  assume h: "wcstol s = (v, e, n)"
  let ?s = "dropWhile iswspace s"
  let ?t = "if peek ?s = CHR ''-'' \<or> peek ?s = CHR ''+'' then tl ?s else ?s"
  have "length (dropWhile iswdigit ?t) \<le> length ?t" by (rule length_dropWhile_le)
  also have "\<dots> \<le> length ?s" by simp
  also have "\<dots> \<le> length s" by (rule length_dropWhile_le)
  finally have d: "length (dropWhile iswdigit ?t) \<le> length s" .
  have "e = s \<or> e = dropWhile iswdigit ?t"
    using h by (auto simp: wcstol_def Let_def split: if_splits)
  then show ?thesis using d by auto
qed

lemma wcstol_errno:
  "wcstol s = (v, e, n) \<Longrightarrow> n = 0 \<or> n = ERANGE"
  by (auto simp: wcstol_def Let_def split: if_splits)

lemma fish_wcstol_blank:
  "dropWhile iswspace s = [] \<Longrightarrow> fish_wcstol s = (0, [], EINVAL)"
  unfolding fish_wcstol_def Let_def by (simp del: dropWhile_eq_Nil_conv)

lemma fish_wcstol_text:
  "dropWhile iswspace s \<noteq> [] \<Longrightarrow> wcstol (dropWhile iswspace s) = (r, e0, n0) \<Longrightarrow>
   fish_wcstol s =
     (r, dropWhile iswspace e0,
      if n0 = 0 \<and> dropWhile iswspace e0 \<noteq> []
      then (if length (dropWhile iswspace e0) = length (dropWhile iswspace s) then EINVAL else - 1)
      else n0)"
  unfolding fish_wcstol_def Let_def by (simp del: dropWhile_eq_Nil_conv)

lemma fish_wcstol_end_le:
  "fish_wcstol s = (v, e, n) \<Longrightarrow> length e \<le> length s"
proof -
  assume h: "fish_wcstol s = (v, e, n)"
  let ?str = "dropWhile iswspace s"
  have l: "length ?str \<le> length s" by (rule length_dropWhile_le)
  show ?thesis
  proof (cases "?str = []")
    case True
    then show ?thesis using h fish_wcstol_blank [OF True] by simp
  next
    case False
    obtain r e0 n0 where w: "wcstol ?str = (r, e0, n0)" by (cases "wcstol ?str")
    have "e = dropWhile iswspace e0"
      using h fish_wcstol_text [OF False w] by simp
    then have "length e \<le> length e0" by (simp add: length_dropWhile_le)
    then show ?thesis using wcstol_end [OF w] l by linarith
  qed
qed

lemma fish_wcstol_end_less:
  "fish_wcstol s = (v, e, n) \<Longrightarrow> n \<le> 0 \<Longrightarrow> length e < length s"
proof -
  assume h: "fish_wcstol s = (v, e, n)" and n: "n \<le> 0"
  let ?str = "dropWhile iswspace s"
  have l: "length ?str \<le> length s" by (rule length_dropWhile_le)
  have ne: "?str \<noteq> []"
  proof
    assume "?str = []"
    from fish_wcstol_blank [OF this] h n show False by (simp add: EINVAL_def)
  qed
  obtain r e0 n0 where w: "wcstol ?str = (r, e0, n0)" by (cases "wcstol ?str")
  note t = fish_wcstol_text [OF ne w]
  have e: "e = dropWhile iswspace e0" using h t by simp
  have le: "length e \<le> length ?str"
    using wcstol_end [OF w] length_dropWhile_le [of iswspace e0] e by simp
  have "e = [] \<or> length e \<noteq> length ?str"
    using h t n e wcstol_errno [OF w] by (auto simp: EINVAL_def ERANGE_def split: if_splits)
  moreover have "0 < length ?str" using ne by simp
  ultimately show ?thesis using le l by (cases "e = []") auto
qed

text \<open>
  The loop \<open>while (*src != L']')\<close> of \<open>parse_index\<close>: the value returned, the
  vector \<open>indexes\<close> as the loop leaves it, and the pieces written to the error
  stream. \<open>count\<close> is an \<open>int\<close>: the result is \<open>None\<close> when \<open>count++\<close>
  leaves the range of \<open>int\<close>, and when the loop of a range does.
\<close>

function parse_index_loop ::
  "nat \<Rightarrow> string \<Rightarrow> int list \<Rightarrow> int \<Rightarrow> (int \<times> int list \<times> string list) option" where
  "parse_index_loop var_count src indexes count =
     (if peek src = CHR '']'' then Some (count, indexes, [])
      else
        case fish_wcstol src of (l_ind0, end, errno) \<Rightarrow>
          if errno > 0
          then Some (0, indexes,
                     [''set: Invalid index starting at '' @ [CHR 0x27] @ src @ [CHR 0x27]
                        @ [CHR 0x0A]])
          else
            let l_ind = (if l_ind0 < 0 then to_long (int var_count + l_ind0 + 1) else l_ind0) in
            if peek end = CHR ''.'' \<and> peek (tl end) = CHR ''.'' then
              case fish_wcstol (drop 2 end) of (l_ind20, end2, errno2) \<Rightarrow>
                if errno2 > 0 then Some (1, indexes, [])
                else
                  let l_ind2 = (if l_ind20 < 0 then to_long (int var_count + l_ind20 + 1)
                                else l_ind20);
                      direction = (if l_ind2 < l_ind then - 1 else 1)
                  in (case expand_range l_ind l_ind2 direction of
                        None \<Rightarrow> None
                      | Some pushed \<Rightarrow>
                          if count + int (length pushed) > INT_MAX then None
                          else parse_index_loop var_count (dropWhile iswspace end2)
                                 (indexes @ pushed) (count + int (length pushed)))
            else if count + 1 > INT_MAX then None
                 else parse_index_loop var_count (dropWhile iswspace end)
                        (indexes @ [l_ind]) (count + 1))"
  by pat_completeness auto
termination
  apply (relation "measure (\<lambda>(var_count, src, indexes, count). length src)")
  apply simp
  subgoal for var_count src indexes count x y xa ya xb xc yb xd yc
    using fish_wcstol_end_less [of src x xa ya]
      fish_wcstol_end_le [of "drop 2 xa" xc xd yc]
      length_dropWhile_le [of iswspace xd]
    by auto
  subgoal for var_count src indexes count x y xa ya
    using fish_wcstol_end_less [of src x xa ya]
      length_dropWhile_le [of iswspace xa]
    by auto
  done

declare parse_index_loop.simps [simp del]

text \<open>
  \<open>parse_index\<close>. \<open>src\<close> is never a null pointer here (it is an element of
  \<open>argv\<close>), so the first test of the source is left out. The comparison of the
  name (\<open>wcsncmp\<close> over \<open>len\<close> characters, and \<open>wcslen\<close>) says that \<open>name\<close>
  is the text before the bracket. \<open>None\<close> stands for undefined behaviour (an
  overflow of \<open>long\<close> or \<open>int\<close>), where the call need not return.
\<close>

definition parse_index ::
  "int list \<Rightarrow> string \<Rightarrow> string \<Rightarrow> nat \<Rightarrow> (int \<times> int list \<times> string list) option" where
  "parse_index indexes src_orig name var_count =
     (let src = dropWhile (\<lambda>c. iswalnum c \<or> c = CHR ''_'') src_orig in
      if peek src \<noteq> CHR ''['' then Some (0, indexes, [BUILTIN_SET_ARG_COUNT ''set''])
      else
        let len = length src_orig - length src in
        if take len src_orig \<noteq> take len name \<or> length name \<noteq> len
        then Some (0, indexes,
                   [''set: Multiple variable names specified in single call ('' @ name
                      @ '' and '' @ take len src_orig @ '')'' @ [CHR 0x0A]])
        else parse_index_loop var_count (dropWhile iswspace (tl src)) indexes 0)"

subsection \<open>Slice engine: update_values and erase_values\<close>

text \<open>\<open>std::vector::resize\<close>: cut to \<open>n\<close> elements, or pad with empty strings.\<close>

definition resize :: "wcstring_list_t \<Rightarrow> nat \<Rightarrow> wcstring_list_t" where
  "resize xs n = take n xs @ replicate (n - length xs) []"

text \<open>
  \<open>update_values\<close>: the loop over \<open>i\<close> walks \<open>indexes\<close> and \<open>values\<close> in step.
  \<open>values[i]\<close> is read before the bounds test; reading it past the end of
  \<open>values\<close> is undefined behaviour in the source and \<open>None\<close> here. The result
  is the return code together with the list as the loop left it.
\<close>

fun update_values ::
  "wcstring_list_t \<Rightarrow> int list \<Rightarrow> wcstring_list_t \<Rightarrow> (int \<times> wcstring_list_t) option" where
  "update_values xs [] values = Some (0, xs)"
| "update_values xs (index # indexes) [] = None"
| "update_values xs (index # indexes) (newv # values) =
     (let ind = index - 1 in
      if ind < 0 then Some (1, xs)
      else
        let xs' = (if nat ind \<ge> length xs then resize xs (nat ind + 1) else xs)
        in update_values (xs'[nat ind := newv]) indexes values)"

text \<open>\<open>list.erase(list.begin() + pos)\<close>.\<close>

definition vector_erase :: "'a list \<Rightarrow> nat \<Rightarrow> 'a list" where
  "vector_erase xs pos = take pos xs @ drop (Suc pos) xs"

text \<open>The reverse walk over the \<open>std::set\<close>, given its elements largest first.\<close>

fun erase_loop :: "int list \<Rightarrow> wcstring_list_t \<Rightarrow> wcstring_list_t" where
  "erase_loop [] xs = xs"
| "erase_loop (val # rest) xs =
     erase_loop rest
       (if val > 0 \<and> nat val \<le> length xs then vector_erase xs (nat val - 1) else xs)"

text \<open>
  \<open>erase_values\<close>: \<open>std::set<long>(indexes.begin(), indexes.end())\<close> holds the
  distinct indexes in ascending order; the loop runs from \<open>rbegin\<close> to \<open>rend\<close>.
\<close>

definition erase_values :: "wcstring_list_t \<Rightarrow> int list \<Rightarrow> wcstring_list_t" where
  "erase_values xs indexes = erase_loop (rev (sort (remdups indexes))) xs"

subsection \<open>print_variables and the show mode\<close>

text \<open>The body of the loop of \<open>print_variables\<close>, for one name.\<close>

definition print_variable ::
  "'st externals \<Rightarrow> 'st \<Rightarrow> bool \<Rightarrow> bool \<Rightarrow> bool \<Rightarrow> env_mode_flags_t \<Rightarrow> string
   \<Rightarrow> string list" where
  "print_variable X st include_values esc shorten_ok scope key =
     [escape_string X key]
     @ (if include_values then
          (case env_get_string X st key scope of
             None \<Rightarrow> []
           | Some val \<Rightarrow>
               let shorten = (shorten_ok \<and> length val > 64);
                   val' = (if shorten then take 60 val else val);
                   e_value = (if esc then expand_escape_variable X val' else val')
               in ['' '', e_value] @ (if shorten then [[ellipsis_char X]] else []))
        else [])
     @ [[CHR 0x0A]]"

definition print_variables ::
  "'st externals \<Rightarrow> 'st \<Rightarrow> bool \<Rightarrow> bool \<Rightarrow> bool \<Rightarrow> env_mode_flags_t \<Rightarrow> string list" where
  "print_variables X st include_values esc shorten_ok scope =
     concat (map (print_variable X st include_values esc shorten_ok scope)
               (sort (env_get_names X st scope)))"

text \<open>
  \<open>show_scope\<close>: the pieces written to the output stream, or \<open>None\<close> for the
  \<open>DIE\<close> of the \<open>default\<close> branch.
\<close>

definition show_scope ::
  "'st externals \<Rightarrow> 'st \<Rightarrow> string \<Rightarrow> env_mode_flag \<Rightarrow> string list option" where
  "show_scope X st var_name scope =
     (case (case scope of
              ENV_LOCAL \<Rightarrow> Some ''local''
            | ENV_GLOBAL \<Rightarrow> Some ''global''
            | ENV_UNIVERSAL \<Rightarrow> Some ''universal''
            | _ \<Rightarrow> None) of
        None \<Rightarrow> None
      | Some scope_name \<Rightarrow>
          Some
            (if env_exist X st var_name {scope} then
               let evar = env_get_string X st var_name {scope, ENV_EXPORT, ENV_USER};
                   exportv = (if evar = None then ''unexported'' else ''exported'');
                   var = env_get_string X st var_name {scope, ENV_USER};
                   result = (case var of
                               None \<Rightarrow> []
                             | Some v \<Rightarrow> if v = [] then [] else tokenize_variable_array X v)
               in (''$'' @ var_name @ '': set in '' @ scope_name @ '' scope, '' @ exportv
                     @ '', with '' @ show_nat (length result) @ '' elements'' @ [CHR 0x0A])
                  # concat (map (\<lambda>i.
                      (if length result > 100 \<and> i = 50 then [''...'' @ [CHR 0x0A]] else [])
                      @ (if length result > 100 \<and> i \<ge> 50 \<and> i < length result - 50 then []
                         else [''$'' @ var_name @ ''['' @ show_nat (i + 1) @ '']: length=''
                                 @ show_nat (length (result ! i)) @ '' value=|''
                                 @ escape_string_script X (result ! i) @ ''|'' @ [CHR 0x0A]]))
                    [0..<length result])
             else [''$'' @ var_name @ '': not set in '' @ scope_name @ '' scope''
                     @ [CHR 0x0A]]))"

text \<open>The three calls of \<open>show_scope\<close> for one name, and the empty line after them.\<close>

definition show_all_scopes :: "'st externals \<Rightarrow> 'st \<Rightarrow> string \<Rightarrow> string list option" where
  "show_all_scopes X st var_name =
     (case show_scope X st var_name ENV_LOCAL of
        None \<Rightarrow> None
      | Some l \<Rightarrow>
          (case show_scope X st var_name ENV_GLOBAL of
             None \<Rightarrow> None
           | Some g \<Rightarrow>
               (case show_scope X st var_name ENV_UNIVERSAL of
                  None \<Rightarrow> None
                | Some u \<Rightarrow> Some (l @ g @ u @ [[CHR 0x0A]]))))"

text \<open>
  The loops of \<open>builtin_set_show\<close>: the status and the pieces written to the output
  and to the error stream; \<open>None\<close> for a \<open>DIE\<close>.
\<close>

fun show_names_loop ::
  "'st externals \<Rightarrow> 'st \<Rightarrow> string list \<Rightarrow> string list option" where
  "show_names_loop X st [] = Some []"
| "show_names_loop X st (it # names) =
     (case show_all_scopes X st it of
        None \<Rightarrow> None
      | Some shown \<Rightarrow> map_option (\<lambda>later. shown @ later) (show_names_loop X st names))"

fun show_args_loop ::
  "'st externals \<Rightarrow> 'st \<Rightarrow> string \<Rightarrow> string list
   \<Rightarrow> (int \<times> string list \<times> string list) option" where
  "show_args_loop X st cmd [] = Some (STATUS_CMD_OK, [], [])"
| "show_args_loop X st cmd (arg # rest) =
     (if \<not> valid_var_name X arg then
        map_option
          (\<lambda>(s, out, err). (s, out, (''$'' @ arg @ '': invalid var name'' @ [CHR 0x0A]) # err))
          (show_args_loop X st cmd rest)
      else if CHR ''['' \<in> set arg then
        Some (STATUS_CMD_ERROR, [],
              [cmd @ '': '' @ [CHR 0x60] @ ''set --show'' @ [CHR 0x60]
                 @ '' does not allow slices with the var names'' @ [CHR 0x0A],
               builtin_print_help X cmd])
      else
        case show_all_scopes X st arg of
          None \<Rightarrow> None
        | Some shown \<Rightarrow>
            map_option (\<lambda>(s, out, err). (s, shown @ out, err)) (show_args_loop X st cmd rest))"

definition builtin_set_show ::
  "'st externals \<Rightarrow> 'st \<Rightarrow> string \<Rightarrow> string list
   \<Rightarrow> (int \<times> string list \<times> string list) option" where
  "builtin_set_show X st cmd argv =
     (if argv = [] then
        map_option (\<lambda>out. (STATUS_CMD_OK, out, []))
          (show_names_loop X st (sort (env_get_names X st {ENV_USER})))
      else show_args_loop X st cmd argv)"

subsection \<open>builtin_set\<close>

text \<open>
  The flags of the work mode. \<open>list_mode\<close> is the flag \<open>list\<close> and \<open>show_mode\<close>
  the flag \<open>show\<close> of the source.
\<close>

record set_flags =
  local :: bool
  global :: bool
  exportv :: bool
  erase :: bool
  list_mode :: bool
  unexport :: bool
  universal :: bool
  query :: bool
  show_mode :: bool
  shorten_ok :: bool
  preserve_failure_exit_status :: bool

definition initial_flags :: set_flags where
  "initial_flags =
     \<lparr>local = False, global = False, exportv = False, erase = False, list_mode = False,
      unexport = False, universal = False, query = False, show_mode = False,
      shorten_ok = True, preserve_failure_exit_status = True\<rparr>"

text \<open>
  Option parsing is done by \<open>wgetopt_long\<close>, which is not under src/. The model
  takes what it yields: the option characters in order, each with
  \<open>argv[w.woptind - 1]\<close> at that moment, and then the arguments from
  \<open>w.woptind\<close> on. The loop gives the flags, or the early return (status, output,
  error stream), or \<open>None\<close> for the \<open>DIE\<close> of the \<open>default\<close> branch.
\<close>

fun wgetopt_loop ::
  "'st externals \<Rightarrow> string \<Rightarrow> (char \<times> string) list \<Rightarrow> set_flags
   \<Rightarrow> set_flags + (int \<times> string list \<times> string list) option" where
  "wgetopt_loop X cmd [] f = Inl f"
| "wgetopt_loop X cmd ((opt, arg) # opts) f =
     (if opt = CHR ''e'' then
        wgetopt_loop X cmd opts (f\<lparr>erase := True, preserve_failure_exit_status := False\<rparr>)
      else if opt = CHR ''n'' then
        wgetopt_loop X cmd opts (f\<lparr>list_mode := True, preserve_failure_exit_status := False\<rparr>)
      else if opt = CHR ''x'' then wgetopt_loop X cmd opts (f\<lparr>exportv := True\<rparr>)
      else if opt = CHR ''l'' then wgetopt_loop X cmd opts (f\<lparr>local := True\<rparr>)
      else if opt = CHR ''g'' then wgetopt_loop X cmd opts (f\<lparr>global := True\<rparr>)
      else if opt = CHR ''u'' then wgetopt_loop X cmd opts (f\<lparr>unexport := True\<rparr>)
      else if opt = CHR ''U'' then wgetopt_loop X cmd opts (f\<lparr>universal := True\<rparr>)
      else if opt = CHR ''L'' then wgetopt_loop X cmd opts (f\<lparr>shorten_ok := False\<rparr>)
      else if opt = CHR ''q'' then
        wgetopt_loop X cmd opts (f\<lparr>query := True, preserve_failure_exit_status := False\<rparr>)
      else if opt = CHR ''S'' then
        wgetopt_loop X cmd opts (f\<lparr>show_mode := True, preserve_failure_exit_status := False\<rparr>)
      else if opt = CHR ''h'' then Inr (Some (STATUS_CMD_OK, [builtin_print_help X cmd], []))
      else if opt = CHR '':'' then
        Inr (Some (STATUS_INVALID_ARGS, [], builtin_missing_argument X cmd arg))
      else if opt = CHR ''?'' then
        Inr (Some (STATUS_INVALID_ARGS, [], builtin_unknown_option X cmd arg))
      else Inr None)"

text \<open>The scope value computed from the flags.\<close>

definition scope_of_flags :: "set_flags \<Rightarrow> env_mode_flags_t" where
  "scope_of_flags f =
     (if local f then {ENV_LOCAL} else {}) \<union> (if global f then {ENV_GLOBAL} else {})
     \<union> (if exportv f then {ENV_EXPORT} else {}) \<union> (if unexport f then {ENV_UNEXPORT} else {})
     \<union> (if universal f then {ENV_UNIVERSAL} else {}) \<union> {ENV_USER}"

text \<open>
  The loop of the query mode over the arguments: the return code and the pieces
  written to the error stream. \<open>dest\<close> is the argument cut at its first bracket.
  \<open>retcode\<close> is an \<open>int\<close>: the result is \<open>None\<close> when \<open>retcode++\<close> leaves
  the range of \<open>int\<close>, and when \<open>parse_index\<close> does not return.
\<close>

fun query_loop ::
  "'st externals \<Rightarrow> 'st \<Rightarrow> string \<Rightarrow> env_mode_flags_t \<Rightarrow> string list \<Rightarrow> int
   \<Rightarrow> (int \<times> string list) option" where
  "query_loop X st cmd scope [] retcode = Some (retcode, [])"
| "query_loop X st cmd scope (arg # rest) retcode =
     (if CHR ''['' \<in> set arg then
        let dest = takeWhile (\<lambda>c. c \<noteq> CHR ''['') arg;
            result = (case env_get_string X st dest scope of
                        None \<Rightarrow> []
                      | Some v \<Rightarrow> tokenize_variable_array X v)
        in case parse_index [] arg dest (length result) of
             None \<Rightarrow> None
           | Some (n, indexes, msgs) \<Rightarrow>
               if n = 0 then Some (1, msgs @ [builtin_print_help X cmd])
               else
                 let retcode' =
                       retcode
                       + int (length (filter (\<lambda>idx. idx < 1 \<or> nat idx > length result)
                                        indexes))
                 in if retcode' > INT_MAX then None
                    else map_option (\<lambda>(r, later). (r, msgs @ later))
                           (query_loop X st cmd scope rest retcode')
      else if env_exist X st arg scope then query_loop X st cmd scope rest retcode
      else if retcode + 1 > INT_MAX then None
      else query_loop X st cmd scope rest (retcode + 1))"

text \<open>
  The loop of the slice mode that parses the index arguments: the return code, the
  indexes, the arguments from \<open>w.woptind\<close> on when the loop is left, and the pieces
  written to the error stream; \<open>None\<close> when \<open>parse_index\<close> does not return.
\<close>

fun slice_index_loop ::
  "'st externals \<Rightarrow> string \<Rightarrow> bool \<Rightarrow> string \<Rightarrow> nat \<Rightarrow> string list \<Rightarrow> int list
   \<Rightarrow> (int \<times> int list \<times> string list \<times> string list) option" where
  "slice_index_loop X cmd erasing dest var_count [] indexes = Some (0, indexes, [], [])"
| "slice_index_loop X cmd erasing dest var_count (arg # rest) indexes =
     (case parse_index indexes arg dest var_count of
        None \<Rightarrow> None
      | Some (n, indexes', msgs) \<Rightarrow>
          if n = 0 then Some (1, indexes', arg # rest, msgs @ [builtin_print_help X cmd])
          else
            let idx_count = length indexes';
                val_count = length rest
            in if \<not> erasing \<and> val_count < idx_count
               then Some (1, indexes', arg # rest,
                          msgs @ [BUILTIN_SET_ARG_COUNT cmd, builtin_print_help X cmd])
               else if \<not> erasing \<and> val_count = idx_count then Some (0, indexes', rest, msgs)
               else
                 map_option (\<lambda>(r, ixs, remaining, later). (r, ixs, remaining, msgs @ later))
                   (slice_index_loop X cmd erasing dest var_count rest indexes'))"

text \<open>
  The slice mode (the branch \<open>if (slice)\<close>): the return code, the store and the
  pieces written to the error stream; \<open>None\<close> when \<open>parse_index\<close> does not
  return and when \<open>update_values\<close> reads past the end of the values. The value
  \<open>my_env_set\<close> returns is not used.
\<close>

definition builtin_set_slice ::
  "'st externals \<Rightarrow> 'st \<Rightarrow> string \<Rightarrow> bool \<Rightarrow> env_mode_flags_t \<Rightarrow> string \<Rightarrow> string list
   \<Rightarrow> (int \<times> 'st \<times> string list) option" where
  "builtin_set_slice X st cmd erasing scope dest argv =
     (let dest_str = env_get_string X st dest scope;
          result = (case dest_str of None \<Rightarrow> [] | Some v \<Rightarrow> tokenize_variable_array X v)
      in if dest_str = None \<and> erasing then Some (1, st, [])
         else
           case slice_index_loop X cmd erasing dest (length result) argv [] of
             None \<Rightarrow> None
           | Some (retcode, indexes, remaining, msgs) \<Rightarrow>
               if retcode \<noteq> 0 then Some (retcode, st, msgs)
               else if erasing then
                 (case my_env_set X st dest (erase_values result indexes) scope of
                    (r, st', warnings) \<Rightarrow> Some (retcode, st', msgs @ warnings))
               else
                 (case update_values result indexes remaining of
                    None \<Rightarrow> None
                  | Some (failed, result') \<Rightarrow>
                      (case my_env_set X st dest result' scope of
                         (r, st', warnings) \<Rightarrow>
                           Some (retcode, st',
                                 msgs
                                 @ (if failed \<noteq> 0
                                    then [cmd @ '': '', ARRAY_BOUNDS_ERR, [CHR 0x0A]] else [])
                                 @ warnings))))"

text \<open>The other branch: the whole variable is set or erased.\<close>

definition builtin_set_whole ::
  "'st externals \<Rightarrow> 'st \<Rightarrow> string \<Rightarrow> bool \<Rightarrow> env_mode_flags_t \<Rightarrow> string \<Rightarrow> string list
   \<Rightarrow> int \<times> 'st \<times> string list" where
  "builtin_set_whole X st cmd erasing scope dest vals =
     (if erasing then
        (if vals \<noteq> []
         then (1, st,
               [cmd @ '': Values cannot be specfied with erase'' @ [CHR 0x0A],
                builtin_print_help X cmd])
         else (case env_remove X st dest scope of (r, st') \<Rightarrow> (r, st', [])))
      else my_env_set X st dest vals scope)"

text \<open>What an invocation leaves: the exit status, the store and the two streams.\<close>

record 'st set_result =
  status :: int
  vars :: 'st
  stdout :: "string list"
  stderr :: "string list"

text \<open>
  \<open>builtin_set\<close>, from the options and arguments \<open>wgetopt_long\<close> yields;
  \<open>cmd\<close> is \<open>argv[0]\<close>. \<open>None\<close> stands for an invocation that need not return
  (a \<open>DIE\<close>, or undefined behaviour).
\<close>

definition builtin_set ::
  "'st externals \<Rightarrow> 'st \<Rightarrow> string \<Rightarrow> (char \<times> string) list \<Rightarrow> string list
   \<Rightarrow> 'st set_result option" where
  "builtin_set X st cmd opts argv =
     (case wgetopt_loop X cmd opts initial_flags of
        Inr None \<Rightarrow> None
      | Inr (Some (s, out, err)) \<Rightarrow> Some \<lparr>status = s, vars = st, stdout = out, stderr = err\<rparr>
      | Inl f \<Rightarrow>
          if show_mode f then
            map_option (\<lambda>(s, out, err). \<lparr>status = s, vars = st, stdout = out, stderr = err\<rparr>)
              (builtin_set_show X st cmd argv)
          else if query f \<and> (erase f \<or> list_mode f) then
            Some \<lparr>status = STATUS_INVALID_ARGS, vars = st, stdout = [],
                  stderr = [BUILTIN_ERR_COMBO cmd, builtin_print_help X cmd]\<rparr>
          else if erase f \<and> list_mode f then
            Some \<lparr>status = STATUS_INVALID_ARGS, vars = st, stdout = [],
                  stderr = [BUILTIN_ERR_COMBO cmd, builtin_print_help X cmd]\<rparr>
          else if (of_bool (local f) + of_bool (global f) + of_bool (universal f) :: nat) > 1 then
            Some \<lparr>status = STATUS_INVALID_ARGS, vars = st, stdout = [],
                  stderr = [BUILTIN_ERR_GLOCAL cmd, builtin_print_help X cmd]\<rparr>
          else if exportv f \<and> unexport f then
            Some \<lparr>status = STATUS_INVALID_ARGS, vars = st, stdout = [],
                  stderr = [BUILTIN_ERR_EXPUNEXP cmd, builtin_print_help X cmd]\<rparr>
          else
            let scope = scope_of_flags f in
            if query f then
              map_option
                (\<lambda>(retcode, err). \<lparr>status = retcode, vars = st, stdout = [], stderr = err\<rparr>)
                (query_loop X st cmd scope argv 0)
            else if list_mode f then
              Some \<lparr>status = STATUS_CMD_OK, vars = st,
                    stdout = print_variables X st False False (shorten_ok f) scope,
                    stderr = []\<rparr>
            else
              case argv of
                [] \<Rightarrow>
                  if erase f then
                    Some \<lparr>status = STATUS_INVALID_ARGS, vars = st, stdout = [],
                          stderr = [cmd @ '': Erase needs a variable name'' @ [CHR 0x0A],
                                    builtin_print_help X cmd]\<rparr>
                  else
                    Some \<lparr>status = STATUS_CMD_OK, vars = st,
                          stdout = print_variables X st True True (shorten_ok f) scope,
                          stderr = []\<rparr>
              | arg # vals \<Rightarrow>
                  let dest = takeWhile (\<lambda>c. c \<noteq> CHR ''['') arg;
                      slice = (CHR ''['' \<in> set arg)
                  in if \<not> valid_var_name X dest then
                       Some \<lparr>status = STATUS_INVALID_ARGS, vars = st, stdout = [],
                             stderr = [BUILTIN_ERR_VARNAME cmd dest, builtin_print_help X cmd]\<rparr>
                     else
                       case (if slice
                             then builtin_set_slice X st cmd (erase f) scope dest argv
                             else Some (builtin_set_whole X st cmd (erase f) scope dest vals)) of
                         None \<Rightarrow> None
                       | Some (retcode, st', err) \<Rightarrow>
                           let global_dest = env_get_string X st' dest {ENV_GLOBAL};
                               warned =
                                 (if universal f \<and> global_dest \<noteq> None \<and> shell_is_interactive X
                                  then [''set: Universal var '' @ [CHR 0x27] @ dest @ [CHR 0x27]
                                          @ '' created but shadowed by global var of the same name.''
                                          @ [CHR 0x0A]]
                                  else [])
                           in Some \<lparr>status =
                                      (if retcode = STATUS_CMD_OK \<and> preserve_failure_exit_status f
                                       then proc_get_last_status X else retcode),
                                    vars = st', stdout = [], stderr = err @ warned\<rparr>)"

subsection \<open>A store, a tokenizer and a file system for the examples\<close>

text \<open>
  Modelled from the spec: the collaborators of section 6 (env.cpp, common.cpp and the
  file system are not under src/), as simple as the interface allows, for the
  concrete examples only; the general theorems hold for every value of the record.
  The store is one table of raw values whatever the scope; a missing variable is
  distinct from one with no element (the raw value \<open>ENV_NULL\<close>) and from one with
  a single empty element; the elements of a raw value are separated by
  \<open>ARRAY_SEP\<close>.
\<close>

definition ARRAY_SEP :: char where "ARRAY_SEP = CHR 0x1E"

fun split_array :: "string \<Rightarrow> string list" where
  "split_array [] = [[]]"
| "split_array (c # cs) =
     (if c = ARRAY_SEP then [] # split_array cs
      else (case split_array cs of [] \<Rightarrow> [[c]] | w # ws \<Rightarrow> (c # w) # ws))"

fun join_array :: "string list \<Rightarrow> string" where
  "join_array [] = []"
| "join_array [x] = x"
| "join_array (x # y # zs) = x @ [ARRAY_SEP] @ join_array (y # zs)"

definition example_world :: "bool \<Rightarrow> int \<Rightarrow> (string \<times> string) list externals" where
  "example_world interactive last_status =
     \<lparr>env_get_string = (\<lambda>st key mode. map_of st key),
      env_exist = (\<lambda>st key mode. map_of st key \<noteq> None),
      env_get_names = (\<lambda>st mode. map fst st),
      env_set = (\<lambda>st key val mode.
        (ENV_OK,
         (key, case val of None \<Rightarrow> [CHR 0x1D] | Some v \<Rightarrow> v) # filter (\<lambda>p. fst p \<noteq> key) st)),
      env_remove = (\<lambda>st key mode.
        (if map_of st key = None then 1 else 0, filter (\<lambda>p. fst p \<noteq> key) st)),
      tokenize_variable_array = (\<lambda>v. if v = [CHR 0x1D] then [] else split_array v),
      list_to_array_val = (\<lambda>xs. if xs = [] then [CHR 0x1D] else join_array xs),
      ENV_NULL = [CHR 0x1D],
      wstat = (\<lambda>dir. if dir \<in> set [''/bin'', ''/usr/bin''] then Inr True
                      else if dir = ''/etc/passwd'' then Inr False else Inl 2),
      waccess = (\<lambda>dir. None),
      strerror = (\<lambda>errno. if errno = 2 then ''No such file or directory''
                           else if errno = 20 then ''Not a directory'' else ''Unknown error''),
      escape_string = (\<lambda>s. s),
      escape_string_script = (\<lambda>s. s),
      expand_escape_variable = (\<lambda>s. [CHR 0x27] @ s @ [CHR 0x27]),
      ellipsis_char = CHR ''$'',
      valid_var_name = (\<lambda>s. s \<noteq> [] \<and> list_all (\<lambda>c. iswalnum c \<or> c = CHR ''_'') s),
      builtin_print_help = (\<lambda>cmd. ''(help for '' @ cmd @ '')'' @ [CHR 0x0A]),
      shell_is_interactive = interactive,
      proc_get_last_status = last_status\<rparr>"

subsection \<open>Notions of the specification: index expressions\<close>

text \<open>
  The text of an index expression (section 4.1): integers and ranges of two
  integers, in decimal, separated by one space, between the brackets that follow
  the name.
\<close>

datatype index_expr = Index int | Range int int

definition show_long :: "int \<Rightarrow> string" where
  "show_long v = (if v < 0 then CHR ''-'' # show_nat (nat (- v)) else show_nat (nat v))"

fun render_expr :: "index_expr \<Rightarrow> string" where
  "render_expr (Index v) = show_long v"
| "render_expr (Range a b) = show_long a @ ''..'' @ show_long b"

fun render_exprs :: "index_expr list \<Rightarrow> string" where
  "render_exprs [] = []"
| "render_exprs [e] = render_expr e"
| "render_exprs (e # e' # es) = render_expr e @ CHR '' '' # render_exprs (e' # es)"

definition sliced :: "string \<Rightarrow> index_expr list \<Rightarrow> string" where
  "sliced name es = name @ CHR ''['' # render_exprs es @ '']''"

text \<open>A name made of letters, digits and underscores.\<close>

definition plain_name :: "string \<Rightarrow> bool" where
  "plain_name name \<longleftrightarrow> list_all (\<lambda>c. iswalnum c \<or> c = CHR ''_'') name"

text \<open>
  What an index expression denotes for an array of \<open>n\<close> elements: a negative
  integer \<open>v\<close> stands for \<open>n + v + 1\<close>, and a range for the inclusive sequence
  between its resolved endpoints, upwards or downwards.
\<close>

definition resolved_index :: "nat \<Rightarrow> int \<Rightarrow> int" where
  "resolved_index n v = (if v < 0 then int n + v + 1 else v)"

definition inclusive_sequence :: "int \<Rightarrow> int \<Rightarrow> int list" where
  "inclusive_sequence A B = (if A \<le> B then [A..B] else rev [B..A])"

fun expr_indexes :: "nat \<Rightarrow> index_expr \<Rightarrow> int list" where
  "expr_indexes n (Index v) = [resolved_index n v]"
| "expr_indexes n (Range a b) = inclusive_sequence (resolved_index n a) (resolved_index n b)"

definition listed_indexes :: "nat \<Rightarrow> index_expr list \<Rightarrow> int list" where
  "listed_indexes n es = concat (map (expr_indexes n) es)"

text \<open>
  The limits of the machine integers. A range whose loop stays within \<open>long\<close>:
  the step after the last element is still a \<open>long\<close> (and so is its negation,
  for a descending range).
\<close>

definition range_within_long :: "int \<Rightarrow> int \<Rightarrow> bool" where
  "range_within_long A B \<longleftrightarrow> (A \<le> B \<and> B < LONG_MAX) \<or> (B < A \<and> LONG_MIN + 1 < B)"

fun expr_within_long :: "nat \<Rightarrow> index_expr \<Rightarrow> bool" where
  "expr_within_long n (Index v) \<longleftrightarrow> in_long v"
| "expr_within_long n (Range a b) \<longleftrightarrow>
     in_long a \<and> in_long b \<and> range_within_long (resolved_index n a) (resolved_index n b)"

text \<open>
  An index list the parser can take for an array of \<open>n\<close> elements: every integer
  is a \<open>long\<close>, every range stays within \<open>long\<close>, and the number of indexes
  is an \<open>int\<close>.
\<close>

definition exprs_within_limits :: "nat \<Rightarrow> index_expr list \<Rightarrow> bool" where
  "exprs_within_limits n es \<longleftrightarrow>
     int n < 2 ^ 63 \<and> list_all (expr_within_long n) es
     \<and> int (length (listed_indexes n es)) \<le> INT_MAX"

subsection \<open>Notions of the specification: path variables\<close>

text \<open>
  Section 4.3. A value is already present when it is an element of the value the
  variable has in the default scope; a variable that is missing or empty has no
  element.
\<close>

definition already_present :: "'st externals \<Rightarrow> 'st \<Rightarrow> string \<Rightarrow> string \<Rightarrow> bool" where
  "already_present X st key dir \<longleftrightarrow>
     (case env_get_string X st key {} of
        None \<Rightarrow> False
      | Some v \<Rightarrow> v \<noteq> [] \<and> dir \<in> set (tokenize_variable_array X v))"

text \<open>An existing directory with traversal permission.\<close>

definition searchable_directory :: "'st externals \<Rightarrow> string \<Rightarrow> bool" where
  "searchable_directory X dir \<longleftrightarrow> wstat X dir = Inr True \<and> waccess X dir = None"

text \<open>
  A value passes validation when it does not start with the root marker, or is
  already present, or names an existing directory with traversal permission.
\<close>

definition passes_validation :: "'st externals \<Rightarrow> 'st \<Rightarrow> string \<Rightarrow> string \<Rightarrow> bool" where
  "passes_validation X st key dir \<longleftrightarrow>
     dir = [] \<or> hd dir \<noteq> CHR ''/'' \<or> already_present X st key dir
     \<or> searchable_directory X dir"

text \<open>
  The error of the operating system for a value that is not such a directory: that
  of the failed \<open>stat\<close>, \<open>ENOTDIR\<close> for a target that is not a directory, that
  of the failed permission check otherwise.
\<close>

definition path_error :: "'st externals \<Rightarrow> string \<Rightarrow> int" where
  "path_error X dir =
     (case wstat X dir of
        Inl errno \<Rightarrow> errno
      | Inr is_dir \<Rightarrow>
          if is_dir then (case waccess X dir of None \<Rightarrow> 0 | Some errno \<Rightarrow> errno)
          else ENOTDIR)"

text \<open>What follows the first colon of a value; empty when there is no colon.\<close>

definition text_after_colon :: "string \<Rightarrow> string" where
  "text_after_colon dir = drop (Suc (length (takeWhile (\<lambda>c. c \<noteq> CHR '':'') dir))) dir"

text \<open>
  The warning for an entry that fails, naming the path and the error, and the hint
  when there is text after a colon.
\<close>

definition entry_warnings :: "'st externals \<Rightarrow> string \<Rightarrow> string \<Rightarrow> string list" where
  "entry_warnings X key dir =
     BUILTIN_SET_PATH_ERROR ''set'' key dir (strerror X (path_error X dir))
     # (if text_after_colon dir \<noteq> []
        then [BUILTIN_SET_PATH_HINT ''set'' key key (text_after_colon dir)] else [])"

text \<open>The warnings of an assignment: those of the entries that fail, in their order.\<close>

definition validation_warnings ::
  "'st externals \<Rightarrow> 'st \<Rightarrow> string \<Rightarrow> wcstring_list_t \<Rightarrow> string list" where
  "validation_warnings X st key values =
     concat (map (entry_warnings X key)
               (filter (\<lambda>dir. \<not> passes_validation X st key dir) values))"

text \<open>
  The write through the store (section 4.5): the list as one array value, or no
  value for the empty list, in the scope asked for, as a write of the user.
\<close>

definition store_write ::
  "'st externals \<Rightarrow> 'st \<Rightarrow> string \<Rightarrow> wcstring_list_t \<Rightarrow> env_mode_flags_t
   \<Rightarrow> env_set_ret \<times> 'st" where
  "store_write X st key values scope =
     env_set X st key
       (if list_to_array_val X values = ENV_NULL X then None
        else Some (list_to_array_val X values))
       (insert ENV_USER scope)"

subsection \<open>Notions of the specification: the listing of the variables\<close>

text \<open>
  A value as the listing with values shows it: whole, or, when it is longer than 64
  characters and \<open>--long\<close> is not given, its first 60 characters followed by one
  ellipsis character. What is shown of the value goes through the escaping of the
  shell.
\<close>

definition shown_value :: "'st externals \<Rightarrow> bool \<Rightarrow> string \<Rightarrow> string" where
  "shown_value X long v =
     (if \<not> long \<and> 64 < length v then expand_escape_variable X (take 60 v) @ [ellipsis_char X]
      else expand_escape_variable X v)"

text \<open>The line of one variable: the name, and a space and the value if there is one.\<close>

definition listing_line ::
  "'st externals \<Rightarrow> 'st \<Rightarrow> env_mode_flags_t \<Rightarrow> bool \<Rightarrow> string \<Rightarrow> string" where
  "listing_line X st scope long key =
     escape_string X key
     @ (case env_get_string X st key scope of
          None \<Rightarrow> []
        | Some v \<Rightarrow> CHR '' '' # shown_value X long v)
     @ [CHR 0x0A]"

text \<open>The listing: the lines of the variables of the scope, sorted by name.\<close>

definition listing :: "'st externals \<Rightarrow> 'st \<Rightarrow> env_mode_flags_t \<Rightarrow> bool \<Rightarrow> string" where
  "listing X st scope long =
     concat (map (listing_line X st scope long) (sort (env_get_names X st scope)))"

subsection \<open>Notions of the specification: the targets of a query\<close>

text \<open>
  A target of a query (section 4.5): a bare name, or a name with its index
  expressions.
\<close>

datatype query_target = Bare string | Sliced string "index_expr list"

fun render_target :: "query_target \<Rightarrow> string" where
  "render_target (Bare name) = name"
| "render_target (Sliced name es) = sliced name es"

text \<open>The array of a variable in a scope; empty when the variable is missing.\<close>

definition target_array :: "'st externals \<Rightarrow> 'st \<Rightarrow> env_mode_flags_t \<Rightarrow> string \<Rightarrow> wcstring_list_t" where
  "target_array X st scope name =
     (case env_get_string X st name scope of
        None \<Rightarrow> []
      | Some v \<Rightarrow> tokenize_variable_array X v)"

text \<open>
  The number of requested things that do not exist: for a bare name, 1 if the
  variable is absent; for a sliced name, the number of indexes listed that are below
  1 or above the length of the array.
\<close>

fun target_missing :: "'st externals \<Rightarrow> 'st \<Rightarrow> env_mode_flags_t \<Rightarrow> query_target \<Rightarrow> int" where
  "target_missing X st scope (Bare name) = (if env_exist X st name scope then 0 else 1)"
| "target_missing X st scope (Sliced name es) =
     int (length (filter (\<lambda>i. i < 1 \<or> int (length (target_array X st scope name)) < i)
                    (listed_indexes (length (target_array X st scope name)) es)))"

text \<open>
  A target the parser takes: a bare name has no bracket; a sliced name is made of
  letters, digits and underscores, and its index list is not empty and within the
  limits of the machine integers.
\<close>

fun target_well_formed ::
  "'st externals \<Rightarrow> 'st \<Rightarrow> env_mode_flags_t \<Rightarrow> query_target \<Rightarrow> bool" where
  "target_well_formed X st scope (Bare name) \<longleftrightarrow> CHR ''['' \<notin> set name"
| "target_well_formed X st scope (Sliced name es) \<longleftrightarrow>
     plain_name name \<and> es \<noteq> []
     \<and> exprs_within_limits (length (target_array X st scope name)) es"

text \<open>
  The start of a text that is not an index: not white space, not a digit, not a
  sign, not a dot and not the closing bracket.
\<close>

definition unreadable_index :: "string \<Rightarrow> bool" where
  "unreadable_index junk \<longleftrightarrow>
     junk \<noteq> [] \<and> \<not> iswspace (hd junk) \<and> \<not> iswdigit (hd junk)
     \<and> hd junk \<noteq> CHR ''-'' \<and> hd junk \<noteq> CHR ''+'' \<and> hd junk \<noteq> CHR ''.''
     \<and> hd junk \<noteq> CHR '']''"

text \<open>
  A sliced name whose index list goes wrong: after the index expressions \<open>es\<close>,
  if any, comes such a text.
\<close>

definition broken_slice :: "string \<Rightarrow> index_expr list \<Rightarrow> string \<Rightarrow> string" where
  "broken_slice name es junk =
     name @ CHR ''['' # render_exprs es @ (if es = [] then [] else '' '') @ junk"

subsection \<open>Notions of the specification: failures\<close>




section \<open>Slice erase\<close>

lemma nths_eq_on:
  "(\<And>i. i < length xs \<Longrightarrow> i \<in> A \<longleftrightarrow> i \<in> B) \<Longrightarrow> nths xs A = nths xs B"
proof -
  assume h: "\<And>i. i < length xs \<Longrightarrow> i \<in> A \<longleftrightarrow> i \<in> B"
  have "filter (\<lambda>p. snd p \<in> A) (zip xs [0..<length xs])
      = filter (\<lambda>p. snd p \<in> B) (zip xs [0..<length xs])"
    by (rule filter_cong) (auto dest!: set_zip_rightD simp: h)
  then show ?thesis by (simp add: nths_def)
qed

lemma nths_all: "(\<And>i. i < length xs \<Longrightarrow> i \<in> A) \<Longrightarrow> nths xs A = xs"
proof -
  assume h: "\<And>i. i < length xs \<Longrightarrow> i \<in> A"
  have "filter (\<lambda>p. snd p \<in> A) (zip xs [0..<length xs]) = zip xs [0..<length xs]"
    by (rule filter_True) (auto dest!: set_zip_rightD simp: h)
  then show ?thesis by (simp add: nths_def)
qed

lemma nths_vector_erase:
  assumes k: "k < length l"
    and above: "\<And>j. k \<le> j \<Longrightarrow> j \<in> A"
  shows "nths (vector_erase l k) A = nths l (A - {k})"
proof -
  have split: "l = take k l @ (l ! k # drop (Suc k) l)"
    using k by (simp add: id_take_nth_drop [symmetric])
  have lt: "length (take k l) = k" using k by simp
  have right: "nths (drop (Suc k) l) {j. j + k \<in> A} = drop (Suc k) l"
    by (rule nths_all) (use above in simp)
  have lhs: "nths (vector_erase l k) A = nths (take k l) A @ drop (Suc k) l"
    unfolding vector_erase_def by (simp only: nths_append lt right)
  have left': "nths (take k l) (A - {k}) = nths (take k l) A"
    by (rule nths_eq_on) (use k in auto)
  have right': "nths (drop (Suc k) l) {j. Suc j + k \<in> A - {k}} = drop (Suc k) l"
    by (rule nths_all) (use above in auto)
  have "nths l (A - {k}) = nths (take k l @ (l ! k # drop (Suc k) l)) (A - {k})"
    using split by simp
  also have "\<dots> = nths (take k l) A @ drop (Suc k) l"
    using right' by (simp only: nths_append lt left' nths_Cons) simp
  finally show ?thesis using lhs by simp
qed

lemma erase_loop_nths:
  "sorted (rev vs) \<Longrightarrow> distinct vs \<Longrightarrow>
   erase_loop vs l = nths l {j. int j + 1 \<notin> set vs}"
proof (induction vs arbitrary: l)
  case Nil
  then show ?case by (simp add: nths_all)
next
  case (Cons v vs)
  have below: "x < v" if "x \<in> set vs" for x
  proof -
    have "x \<le> v" using Cons.prems(1) that by (simp add: sorted_append)
    moreover have "x \<noteq> v" using Cons.prems(2) that by auto
    ultimately show ?thesis by simp
  qed
  have srt: "sorted (rev vs)" and dst: "distinct vs"
    using Cons.prems by (auto simp: sorted_append)
  show ?case
  proof (cases "v > 0 \<and> nat v \<le> length l")
    case True
    define k where "k = nat v - 1"
    have k: "k < length l" and kv: "int k + 1 = v" using True by (auto simp: k_def)
    have "erase_loop (v # vs) l = erase_loop vs (vector_erase l k)"
      using True by (simp add: k_def)
    also have "\<dots> = nths (vector_erase l k) {j. int j + 1 \<notin> set vs}"
      by (rule Cons.IH [OF srt dst])
    also have "\<dots> = nths l ({j. int j + 1 \<notin> set vs} - {k})"
    proof (rule nths_vector_erase [OF k])
      fix j assume "k \<le> j"
      then have "v \<le> int j + 1" using kv by linarith
      then show "j \<in> {j. int j + 1 \<notin> set vs}" using below by force
    qed
    also have "{j. int j + 1 \<notin> set vs} - {k} = {j. int j + 1 \<notin> set (v # vs)}"
      using kv by auto
    finally show ?thesis .
  next
    case False
    have "erase_loop (v # vs) l = erase_loop vs l" using False by auto
    also have "\<dots> = nths l {j. int j + 1 \<notin> set vs}" by (rule Cons.IH [OF srt dst])
    also have "\<dots> = nths l {j. int j + 1 \<notin> set (v # vs)}"
      by (rule nths_eq_on) (use False in auto)
    finally show ?thesis .
  qed
qed

lemma card_in_range:
  fixes S :: "int set"
  shows "card {i. i < n \<and> int i + 1 \<notin> S} = n - card {v \<in> S. 1 \<le> v \<and> v \<le> int n}"
proof -
  let ?keep = "{i. i < n \<and> int i + 1 \<notin> S}"
  let ?gone = "{i. i < n \<and> int i + 1 \<in> S}"
  have fin: "finite ?keep" "finite ?gone" by auto
  have "?keep \<union> ?gone = {..<n}" and dis: "?keep \<inter> ?gone = {}" by auto
  then have "card ?keep + card ?gone = n"
    using card_Un_disjoint [OF fin dis] by simp
  moreover have "card ?gone = card {v \<in> S. 1 \<le> v \<and> v \<le> int n}"
  proof (rule bij_betw_same_card [of "\<lambda>i. int i + 1"])
    show "bij_betw (\<lambda>i. int i + 1) ?gone {v \<in> S. 1 \<le> v \<and> v \<le> int n}"
      by (rule bij_betw_byWitness [where f' = "\<lambda>v. nat (v - 1)"]) auto
  qed
  ultimately show ?thesis by simp
qed

text \<open>
  C2. Slice erase removes exactly the elements at the distinct in-range positions
  (1-based) of the index list, for every array and every index list: the result is
  the array restricted to the positions no index names, in the old order (indexes
  below 1 or above the length name no position and are ignored, with no error), so
  it is a subsequence of the old array, and its length is the old length less the
  number of distinct indexes between 1 and the old length.
\<close>

theorem erase_values_removes_distinct_in_range:
  "erase_values xs indexes = nths xs {j. int j + 1 \<notin> set indexes}
   \<and> subseq (erase_values xs indexes) xs
   \<and> length (erase_values xs indexes)
       = length xs - card {v \<in> set indexes. 1 \<le> v \<and> v \<le> int (length xs)}"
proof -
  have e: "erase_values xs indexes = nths xs {j. int j + 1 \<notin> set indexes}"
    unfolding erase_values_def by (subst erase_loop_nths) simp_all
  have s: "subseq (nths xs {j. int j + 1 \<notin> set indexes}) xs"
    using subseq_conv_nths by blast
  have "length (nths xs {j. int j + 1 \<notin> set indexes})
      = card {i. i < length xs \<and> int i + 1 \<notin> set indexes}"
    by (simp add: length_nths)
  then show ?thesis using e s by (simp add: card_in_range)
qed

section \<open>Slice update\<close>

lemma Max_insert_mono: "finite S \<Longrightarrow> Max (insert (max a b) S) = Max (insert a (insert b S))"
  by (metis Max_insert Max_singleton finite.emptyI finite.insertI insert_not_empty max.assoc)

lemma update_values_spec:
  "length values = length indexes \<Longrightarrow> (\<forall>i\<in>set indexes. 1 \<le> i) \<Longrightarrow>
   \<exists>res. update_values xs indexes values = Some (0, res) \<and>
     int (length res) = Max (insert (int (length xs)) (set indexes)) \<and>
     (\<forall>j<length res. int j + 1 \<notin> set indexes \<longrightarrow> res ! j = (if j < length xs then xs ! j else [])) \<and>
     (\<forall>k<length indexes. (\<forall>k'. k < k' \<and> k' < length indexes \<longrightarrow> indexes ! k' \<noteq> indexes ! k)
        \<longrightarrow> res ! (nat (indexes ! k) - 1) = values ! k)"
proof (induction "values" indexes arbitrary: xs rule: list_induct2)
  case Nil
  then show ?case by simp
next
  case (Cons v vs i ixs)
  define p where "p = nat (i - 1)"
  define xs0 where "xs0 = (if p \<ge> length xs then resize xs (p + 1) else xs)"
  define xs1 where "xs1 = xs0[p := v]"
  have i1: "1 \<le> i" and rest: "\<forall>i\<in>set ixs. 1 \<le> i" using Cons.prems by auto
  have ip: "int p + 1 = i" using i1 by (simp add: p_def)
  have pn: "nat i - 1 = p" using i1 unfolding p_def by linarith
  have len0: "length xs0 = max (length xs) (p + 1)"
    by (auto simp: xs0_def resize_def)
  have len1: "length xs1 = max (length xs) (p + 1)" by (simp add: xs1_def len0)
  have p1: "p < length xs1" using len1 by simp
  have nth0: "\<And>j. j < length xs0 \<Longrightarrow> xs0 ! j = (if j < length xs then xs ! j else [])"
    by (auto simp: xs0_def resize_def nth_append)
  have step: "update_values xs (i # ixs) (v # vs) = update_values xs1 ixs vs"
    using i1 by (simp add: Let_def xs1_def xs0_def p_def nat_diff_distrib)
  from Cons.IH [OF rest, of xs1] obtain res where
    r: "update_values xs1 ixs vs = Some (0, res)"
    and rl: "int (length res) = Max (insert (int (length xs1)) (set ixs))"
    and ru: "\<forall>j<length res. int j + 1 \<notin> set ixs \<longrightarrow> res ! j = (if j < length xs1 then xs1 ! j else [])"
    and ra: "\<forall>k<length ixs. (\<forall>k'. k < k' \<and> k' < length ixs \<longrightarrow> ixs ! k' \<noteq> ixs ! k)
        \<longrightarrow> res ! (nat (ixs ! k) - 1) = vs ! k"
    by blast
  have ge: "length xs1 \<le> length res"
  proof -
    have "int (length xs1) \<le> Max (insert (int (length xs1)) (set ixs))" by simp
    then show ?thesis using rl by linarith
  qed
  have l: "int (length res) = Max (insert (int (length xs)) (set (i # ixs)))"
  proof -
    have "int (length xs1) = max (int (length xs)) i" using len1 ip by (simp add: max_def)
    then show ?thesis using rl Max_insert_mono [of "set ixs" "int (length xs)" i] by simp
  qed
  have u: "\<forall>j<length res. int j + 1 \<notin> set (i # ixs) \<longrightarrow> res ! j = (if j < length xs then xs ! j else [])"
  proof (intro allI impI)
    fix j assume j: "j < length res" and n: "int j + 1 \<notin> set (i # ixs)"
    have jp: "j \<noteq> p" using n ip by auto
    have "res ! j = (if j < length xs1 then xs1 ! j else [])" using ru j n by simp
    also have "\<dots> = (if j < length xs then xs ! j else [])"
      using jp nth0 [of j] len0 len1 by (auto simp: xs1_def)
    finally show "res ! j = (if j < length xs then xs ! j else [])" .
  qed
  have a: "\<forall>k<length (i # ixs). (\<forall>k'. k < k' \<and> k' < length (i # ixs) \<longrightarrow> (i # ixs) ! k' \<noteq> (i # ixs) ! k)
        \<longrightarrow> res ! (nat ((i # ixs) ! k) - 1) = (v # vs) ! k"
  proof (intro allI impI)
    fix k assume k: "k < length (i # ixs)"
      and last: "\<forall>k'. k < k' \<and> k' < length (i # ixs) \<longrightarrow> (i # ixs) ! k' \<noteq> (i # ixs) ! k"
    show "res ! (nat ((i # ixs) ! k) - 1) = (v # vs) ! k"
    proof (cases k)
      case 0
      have "i \<notin> set ixs"
      proof
        assume "i \<in> set ixs"
        then obtain m where "m < length ixs" "ixs ! m = i" by (auto simp: in_set_conv_nth)
        then show False using last 0 by (auto dest!: spec [of _ "Suc m"])
      qed
      then have "int p + 1 \<notin> set ixs" using ip by simp
      moreover have "p < length res" using p1 ge by linarith
      ultimately have "res ! p = xs1 ! p" using ru p1 by simp
      also have "\<dots> = v" using p1 by (simp add: xs1_def)
      finally show ?thesis using 0 pn by simp
    next
      case (Suc k0)
      have "k0 < length ixs" using k Suc by simp
      moreover have "\<forall>k'. k0 < k' \<and> k' < length ixs \<longrightarrow> ixs ! k' \<noteq> ixs ! k0"
      proof (intro allI impI)
        fix k' assume "k0 < k' \<and> k' < length ixs"
        then have "k < Suc k' \<and> Suc k' < length (i # ixs)" using Suc by simp
        then have "(i # ixs) ! Suc k' \<noteq> (i # ixs) ! k" using last by blast
        then show "ixs ! k' \<noteq> ixs ! k0" using Suc by simp
      qed
      ultimately show ?thesis using ra Suc by simp
    qed
  qed
  show ?case using step r l u a by auto
qed

text \<open>
  In \<open>builtin_set\<close> the loop over the index arguments is left, when nothing is
  erased, only with as many values as indexes, so \<open>update_values\<close> never reads
  past the end of the values there: the slice update returns whenever the parsing
  of the index arguments does.
\<close>

lemma slice_index_loop_counts_match:
  "slice_index_loop X cmd False dest var_count argv indexes
     = Some (0, indexes', remaining, msgs) \<Longrightarrow>
   argv \<noteq> [] \<or> indexes = [] \<Longrightarrow> length remaining = length indexes'"
proof (induction argv arbitrary: indexes indexes' remaining msgs)
  case Nil
  then show ?case by simp
next
  case (Cons a argv)
  obtain n ixs ms where p: "parse_index indexes a dest var_count = Some (n, ixs, ms)"
    using Cons.prems(1) by (cases "parse_index indexes a dest var_count") auto
  have n: "n \<noteq> 0" using Cons.prems(1) p by (auto split: if_splits)
  have ge: "\<not> length argv < length ixs"
    using Cons.prems(1) p n by (auto simp: Let_def split: if_splits)
  show ?case
  proof (cases "length argv = length ixs")
    case True
    then show ?thesis using Cons.prems(1) p n ge by (simp add: Let_def)
  next
    case False
    obtain r2 i2 a2 m2 where
      rec: "slice_index_loop X cmd False dest var_count argv ixs = Some (r2, i2, a2, m2)"
      using Cons.prems(1) p n ge False
      by (cases "slice_index_loop X cmd False dest var_count argv ixs") (auto simp: Let_def)
    have "r2 = 0" and "i2 = indexes'" and "a2 = remaining"
      using Cons.prems(1) p n ge False rec by (auto simp: Let_def)
    moreover have "argv \<noteq> []" using ge False by auto
    ultimately show ?thesis using Cons.IH [of ixs indexes' remaining m2] rec by simp
  qed
qed

lemma update_values_defined:
  "length remaining = length ixs \<Longrightarrow> update_values xs ixs remaining \<noteq> None"
proof (induction ixs arbitrary: xs remaining)
  case Nil
  then show ?case by simp
next
  case (Cons i ixs)
  then obtain v vs where "remaining = v # vs" "length vs = length ixs"
    by (cases remaining) auto
  then show ?case using Cons.IH [of vs] by (simp add: Let_def)
qed

lemma builtin_set_slice_update_defined:
  assumes "slice_index_loop X cmd False dest
             (length (case env_get_string X st dest scope of
                        None \<Rightarrow> [] | Some v \<Rightarrow> tokenize_variable_array X v)) argv []
           \<noteq> None"
  shows "\<exists>res. builtin_set_slice X st cmd False scope dest argv = Some res"
proof -
  define result where "result = (case env_get_string X st dest scope of
      None \<Rightarrow> [] | Some v \<Rightarrow> tokenize_variable_array X v)"
  obtain r ixs remaining msgs where
    l: "slice_index_loop X cmd False dest (length result) argv []
          = Some (r, ixs, remaining, msgs)"
    using assms unfolding result_def [symmetric] by auto
  show ?thesis
  proof (cases "r = 0")
    case False
    then show ?thesis using l
      by (simp add: builtin_set_slice_def Let_def result_def [symmetric])
  next
    case True
    then have len: "length remaining = length ixs"
      using slice_index_loop_counts_match [of X cmd dest "length result" argv "[]"] l by simp
    have "update_values result ixs remaining \<noteq> None"
      by (rule update_values_defined [OF len])
    then obtain u res where "update_values result ixs remaining = Some (u, res)"
      by (cases "update_values result ixs remaining") auto
    then show ?thesis using l True
      by (simp add: builtin_set_slice_def Let_def result_def [symmetric] case_prod_beta)
  qed
qed

text \<open>
  C7. A slice update whose indexes are all positive, with as many values as indexes,
  returns 0; the final length is the largest of the old length and the indexes; a
  slot no index names keeps its old element, or holds the empty string when it is
  new; and the last pair that names an index gives its element. Assigning \<open>x\<close> at
  index 2 of the empty array gives the array of the empty string and \<open>x\<close>.
\<close>

theorem update_values_grows_and_pads:
  assumes "length values = length indexes" and "\<forall>i\<in>set indexes. 1 \<le> i"
  shows "(\<exists>res. update_values xs indexes values = Some (0, res) \<and>
     int (length res) = Max (insert (int (length xs)) (set indexes)) \<and>
     (\<forall>j<length res. int j + 1 \<notin> set indexes \<longrightarrow> res ! j = (if j < length xs then xs ! j else [])) \<and>
     (\<forall>k<length indexes. (\<forall>k'. k < k' \<and> k' < length indexes \<longrightarrow> indexes ! k' \<noteq> indexes ! k)
        \<longrightarrow> res ! (nat (indexes ! k) - 1) = values ! k))
   \<and> update_values [] [2] [''x''] = Some (0, [[], ''x''])"
proof -
  have "update_values [] [2] [''x''] = Some (0, [[], ''x''])"
    by (simp add: resize_def)
  then show ?thesis using update_values_spec [OF assms] by blast
qed

theorem update_values_grows_and_pads_witness:
  "(\<exists>res. update_values [''a''] [3, 1, 3] [''p'', ''q'', ''r''] = Some (0, res)
     \<and> length res = 3 \<and> res ! 0 = ''q'' \<and> res ! 1 = [] \<and> res ! 2 = ''r'')
   \<and> builtin_set (example_world False 0) [] ''set'' [] [''foo[2]'', ''x'']
     = Some \<lparr>status = 0, vars = [(''foo'', [ARRAY_SEP] @ ''x'')], stdout = [], stderr = []\<rparr>
   \<and> tokenize_variable_array (example_world False 0) ([ARRAY_SEP] @ ''x'') = [[], ''x'']"
proof -
  have run: "builtin_set (example_world False 0) [] ''set'' [] [''foo[2]'', ''x'']
     = Some \<lparr>status = 0, vars = [(''foo'', [ARRAY_SEP] @ ''x'')], stdout = [], stderr = []\<rparr>
   \<and> tokenize_variable_array (example_world False 0) ([ARRAY_SEP] @ ''x'') = [[], ''x'']"
    by code_simp
  have h1: "length [''p'', ''q'', ''r''] = length [3, 1, 3 :: int]" by simp
  have h2: "\<forall>i\<in>set [3, 1, 3 :: int]. 1 \<le> i" by simp
  from update_values_grows_and_pads [OF h1 h2, of "[''a'']"] obtain res where
    r: "update_values [''a''] [3, 1, 3] [''p'', ''q'', ''r''] = Some (0, res)"
    and l: "int (length res) = Max (insert (int (length [''a''])) (set [3, 1, 3]))"
    and u: "\<forall>j<length res. int j + 1 \<notin> set [3, 1, 3 :: int]
              \<longrightarrow> res ! j = (if j < length [''a''] then [''a''] ! j else [])"
    and a: "\<forall>k<length [3, 1, 3 :: int].
              (\<forall>k'. k < k' \<and> k' < length [3, 1, 3 :: int] \<longrightarrow> [3, 1, 3 :: int] ! k' \<noteq> [3, 1, 3] ! k)
              \<longrightarrow> res ! (nat ([3, 1, 3] ! k) - 1) = [''p'', ''q'', ''r''] ! k"
    by blast
  have len: "length res = 3" using l by simp
  have "res ! 1 = []" using u len by (auto dest!: spec [of _ 1])
  moreover have "res ! 2 = ''r''" using a by (auto dest!: spec [of _ 2])
  moreover have "res ! 0 = ''q''"
  proof -
    have "\<forall>k'. 1 < k' \<and> k' < length [3, 1, 3 :: int] \<longrightarrow> [3, 1, 3 :: int] ! k' \<noteq> [3, 1, 3] ! 1"
      by (auto simp: nth_Cons split: nat.splits)
    then show ?thesis using a by (auto dest!: spec [of _ 1])
  qed
  ultimately show ?thesis using r len run by blast
qed

section \<open>The index parser\<close>

subsection \<open>Reading back a decimal numeral\<close>

lemma show_nat_not_empty: "show_nat n \<noteq> []"
  by (subst show_nat.simps) simp

lemma of_char_digit: "d < 10 \<Longrightarrow> (of_char (char_of (48 + d :: nat)) :: nat) = 48 + d"
  by simp

lemma iswdigit_digit: "d < 10 \<Longrightarrow> iswdigit (char_of (48 + d :: nat))"
  by (simp add: iswdigit_def)

lemma show_nat_digits: "list_all iswdigit (show_nat n)"
proof (induction n rule: show_nat.induct)
  case (1 n)
  show ?case
  proof (cases "n < 10")
    case True
    then show ?thesis by (subst show_nat.simps) (simp add: iswdigit_digit)
  next
    case False
    have "n mod 10 < 10" by simp
    then have "iswdigit (char_of (48 + n mod 10))" by (rule iswdigit_digit)
    then show ?thesis using False 1 by (subst show_nat.simps) simp
  qed
qed

lemma digits_value_snoc:
  "digits_value (ds @ [c]) = 10 * digits_value ds + (int (of_char c) - 48)"
  by (simp add: digits_value_def)

lemma digits_value_show_nat: "digits_value (show_nat n) = int n"
proof (induction n rule: show_nat.induct)
  case (1 n)
  show ?case
  proof (cases "n < 10")
    case True
    then show ?thesis by (subst show_nat.simps) (simp add: digits_value_def)
  next
    case False
    have m: "n mod 10 < 10" by simp
    have "digits_value (show_nat n)
        = 10 * digits_value (show_nat (n div 10)) + (int (of_char (char_of (48 + n mod 10))) - 48)"
      using False by (subst show_nat.simps) (simp add: digits_value_snoc)
    also have "\<dots> = 10 * int (n div 10) + int (n mod 10)"
      using 1 False of_char_digit [OF m] by simp
    also have "\<dots> = int n" by presburger
    finally show ?thesis .
  qed
qed

lemma takeWhile_all_then: "list_all P xs \<Longrightarrow> \<not> P (peek ys) \<Longrightarrow> takeWhile P (xs @ ys) = xs"
  by (induction xs) (auto simp: peek_def split: list.splits)

lemma dropWhile_all_then: "list_all P xs \<Longrightarrow> \<not> P (peek ys) \<Longrightarrow> dropWhile P (xs @ ys) = ys"
  by (induction xs) (auto simp: peek_def split: list.splits)

lemma not_iswdigit_nul: "\<not> iswdigit (CHR 0x00)"
  by (simp add: iswdigit_def)

lemma iswdigit_not_space: "iswdigit c \<Longrightarrow> \<not> iswspace c \<and> c \<noteq> CHR ''-'' \<and> c \<noteq> CHR ''+''
    \<and> c \<noteq> CHR '']'' \<and> c \<noteq> CHR ''.''"
  by (auto simp: iswdigit_def iswspace_def)

lemma show_nat_first: "\<exists>c cs. show_nat n = c # cs \<and> iswdigit c"
  using show_nat_not_empty [of n] show_nat_digits [of n] by (cases "show_nat n") auto

lemma show_long_first:
  "\<exists>c cs. show_long v = c # cs \<and> (c = CHR ''-'' \<or> iswdigit c)"
  using show_nat_first [of "nat v"] show_nat_first [of "nat (- v)"]
  by (auto simp: show_long_def)

lemma wcstol_show_long:
  assumes "in_long v" and "\<not> iswdigit (peek rest)"
  shows "wcstol (show_long v @ rest) = (v, rest, 0)"
proof (cases "v < 0")
  case True
  let ?ds = "show_nat (nat (- v))"
  have s: "show_long v @ rest = CHR ''-'' # ?ds @ rest" using True by (simp add: show_long_def)
  have sp: "dropWhile iswspace (CHR ''-'' # ?ds @ rest) = CHR ''-'' # ?ds @ rest"
    by (simp add: iswspace_def)
  have tk: "takeWhile iswdigit (?ds @ rest) = ?ds"
    by (rule takeWhile_all_then [OF show_nat_digits assms(2)])
  have dr: "dropWhile iswdigit (?ds @ rest) = rest"
    by (rule dropWhile_all_then [OF show_nat_digits assms(2)])
  have val: "- digits_value ?ds = v" using True by (simp add: digits_value_show_nat)
  show ?thesis
    unfolding s wcstol_def sp Let_def
    using assms(1) val
    by (simp add: peek_def tk dr show_nat_not_empty in_long_def)
next
  case False
  let ?ds = "show_nat (nat v)"
  obtain c cs where c: "?ds = c # cs" "iswdigit c" using show_nat_first by blast
  have s: "show_long v @ rest = ?ds @ rest" using False by (simp add: show_long_def)
  have sp: "dropWhile iswspace (?ds @ rest) = ?ds @ rest"
    using c iswdigit_not_space [of c] by simp
  have pk: "peek (?ds @ rest) = c" using c by (simp add: peek_def)
  have tk: "takeWhile iswdigit (?ds @ rest) = ?ds"
    by (rule takeWhile_all_then [OF show_nat_digits assms(2)])
  have dr: "dropWhile iswdigit (?ds @ rest) = rest"
    by (rule dropWhile_all_then [OF show_nat_digits assms(2)])
  have val: "digits_value ?ds = v" using False by (simp add: digits_value_show_nat)
  show ?thesis
    unfolding s wcstol_def sp Let_def pk
    using assms(1) val iswdigit_not_space [OF c(2)]
    by (simp add: tk dr show_nat_not_empty in_long_def)
qed

lemma fish_wcstol_show_long:
  assumes "in_long v" and "\<not> iswdigit (peek rest)"
  shows "fish_wcstol (show_long v @ rest)
           = (v, dropWhile iswspace rest, if dropWhile iswspace rest = [] then 0 else - 1)"
proof -
  obtain c cs where c: "show_long v = c # cs" "c = CHR ''-'' \<or> iswdigit c"
    using show_long_first by blast
  have nsp: "\<not> iswspace c" using c(2) iswdigit_not_space [of c] by (auto simp: iswspace_def)
  have sp: "dropWhile iswspace (show_long v @ rest) = show_long v @ rest"
    using c nsp by simp
  have ne: "dropWhile iswspace (show_long v @ rest) \<noteq> []" unfolding sp using c by simp
  have w: "wcstol (dropWhile iswspace (show_long v @ rest)) = (v, rest, 0)"
    unfolding sp by (rule wcstol_show_long [OF assms])
  have "length (dropWhile iswspace rest) \<le> length rest" by (rule length_dropWhile_le)
  then have l: "length (dropWhile iswspace rest) \<noteq> length (show_long v @ rest)"
    using c by simp
  show ?thesis
    using fish_wcstol_text [OF ne w] l unfolding sp by (simp del: dropWhile_eq_Nil_conv)
qed

lemma fish_wcstol_show_long_below:
  assumes "v < LONG_MIN" and "\<not> iswdigit (peek rest)"
  shows "fish_wcstol (show_long v @ rest) = (LONG_MIN, dropWhile iswspace rest, ERANGE)"
proof -
  let ?ds = "show_nat (nat (- v))"
  have neg: "v < 0" using assms(1) by (simp add: LONG_MIN_def)
  have s: "show_long v @ rest = CHR ''-'' # ?ds @ rest" using neg by (simp add: show_long_def)
  have sp: "dropWhile iswspace (CHR ''-'' # ?ds @ rest) = CHR ''-'' # ?ds @ rest"
    by (simp add: iswspace_def)
  have tk: "takeWhile iswdigit (?ds @ rest) = ?ds"
    by (rule takeWhile_all_then [OF show_nat_digits assms(2)])
  have dr: "dropWhile iswdigit (?ds @ rest) = rest"
    by (rule dropWhile_all_then [OF show_nat_digits assms(2)])
  have val: "- digits_value ?ds = v" using neg by (simp add: digits_value_show_nat)
  have big: "\<not> v > LONG_MAX" using assms(1) by (simp add: LONG_MIN_def LONG_MAX_def)
  have w: "wcstol (CHR ''-'' # ?ds @ rest) = (LONG_MIN, rest, ERANGE)"
    unfolding wcstol_def sp Let_def
    using assms(1) val big by (simp add: peek_def tk dr show_nat_not_empty)
  have ne: "dropWhile iswspace (CHR ''-'' # ?ds @ rest) \<noteq> []" unfolding sp by simp
  have w': "wcstol (dropWhile iswspace (CHR ''-'' # ?ds @ rest)) = (LONG_MIN, rest, ERANGE)"
    unfolding sp by (rule w)
  show ?thesis
    unfolding s using fish_wcstol_text [OF ne w']
    by (simp add: ERANGE_def del: dropWhile_eq_Nil_conv)
qed

subsection \<open>The loop of a range\<close>

lemma to_long_id: "- (2 ^ 63) \<le> x \<Longrightarrow> x < 2 ^ 63 \<Longrightarrow> to_long x = x"
  by (simp add: to_long_def)

lemma resolved_index_long:
  assumes "in_long v" and "int n < 2 ^ 63"
  shows "(if v < 0 then to_long (int n + v + 1) else v) = resolved_index n v"
    and "in_long (resolved_index n v)"
    and "v < 0 \<Longrightarrow> LONG_MIN < resolved_index n v"
proof -
  have b: "- (2 ^ 63) \<le> v" "v < 2 ^ 63"
    using assms(1) by (simp_all add: in_long_def LONG_MIN_def LONG_MAX_def)
  have "to_long (int n + v + 1) = int n + v + 1" if "v < 0"
    by (rule to_long_id) (use b assms(2) that in linarith)+
  then show "(if v < 0 then to_long (int n + v + 1) else v) = resolved_index n v"
    by (simp add: resolved_index_def)
  show "in_long (resolved_index n v)"
    using b assms(2) by (auto simp: resolved_index_def in_long_def LONG_MIN_def LONG_MAX_def)
  show "LONG_MIN < resolved_index n v" if "v < 0"
    using b that by (simp add: resolved_index_def LONG_MIN_def)
qed

lemma expand_range_past_up: "in_long A \<Longrightarrow> in_long B \<Longrightarrow> B < A \<Longrightarrow> expand_range A B 1 = Some []"
  by (subst expand_range.simps) simp

lemma expand_range_up:
  "in_long A \<Longrightarrow> in_long B \<Longrightarrow> A \<le> B \<Longrightarrow>
   expand_range A B 1 = (if B < LONG_MAX then Some [A..B] else None)"
proof (induction "nat (B - A)" arbitrary: A)
  case 0
  then have e: "A = B" by simp
  have n: "in_long (B + 1) \<longleftrightarrow> B < LONG_MAX"
    using 0(3) by (auto simp: in_long_def)
  show ?case
  proof (cases "B < LONG_MAX")
    case True
    then have "in_long (B + 1)" using n by simp
    then have "expand_range (B + 1) B 1 = Some []"
      using 0(3) by (intro expand_range_past_up) simp_all
    then show ?thesis using True n 0(3) unfolding e
      by (subst expand_range.simps) simp
  next
    case False
    then show ?thesis using n 0(3) unfolding e
      by (subst expand_range.simps) simp
  qed
next
  case (Suc k)
  then have lt: "A < B" and k: "k = nat (B - (A + 1))" by linarith+
  have a1: "in_long (A + 1)" using lt Suc.prems by (auto simp: in_long_def)
  have "expand_range (A + 1) B 1 = (if B < LONG_MAX then Some [A + 1..B] else None)"
    using Suc.hyps(1) [OF k a1 Suc.prems(2)] lt by simp
  then show ?case using lt a1 Suc.prems(1,2)
    by (subst expand_range.simps) (simp add: upto_rec1 [of A B])
qed

lemma expand_range_down:
  "in_long A \<Longrightarrow> in_long B \<Longrightarrow> B \<le> A \<Longrightarrow>
   expand_range A B (- 1) = (if LONG_MIN + 1 < B then Some (rev [B..A]) else None)"
proof (induction "nat (A - B)" arbitrary: A)
  case 0
  then have e: "A = B" by simp
  show ?case
  proof (cases "LONG_MIN + 1 < B")
    case True
    then have "expand_range (B - 1) B (- 1) = Some []"
      using 0(3) by (subst expand_range.simps) (auto simp: in_long_def LONG_MIN_def LONG_MAX_def)
    then show ?thesis using True 0(3) unfolding e
      by (subst expand_range.simps) (auto simp: in_long_def LONG_MIN_def LONG_MAX_def)
  next
    case False
    then have "B = LONG_MIN \<or> B = LONG_MIN + 1" using 0(3) by (auto simp: in_long_def)
    then show ?thesis
    proof
      assume "B = LONG_MIN"
      then show ?thesis unfolding e
        by (subst expand_range.simps) (simp add: in_long_def LONG_MIN_def LONG_MAX_def)
    next
      assume b: "B = LONG_MIN + 1"
      have "expand_range (B - 1) B (- 1) = None"
        unfolding b by (subst expand_range.simps) (simp add: in_long_def LONG_MIN_def LONG_MAX_def)
      then show ?thesis using False unfolding e
        by (subst expand_range.simps) simp
    qed
  qed
next
  case (Suc k)
  then have lt: "B < A" and k: "k = nat (A - 1 - B)" by linarith+
  have a1: "in_long (A - 1)" using lt Suc.prems by (auto simp: in_long_def)
  have ih: "expand_range (A - 1) B (- 1)
      = (if LONG_MIN + 1 < B then Some (rev [B..A - 1]) else None)"
    using Suc.hyps(1) [OF k a1 Suc.prems(2)] lt by simp
  show ?case
  proof (cases "B = LONG_MIN")
    case True
    then show ?thesis
      by (subst expand_range.simps) (simp add: in_long_def LONG_MIN_def LONG_MAX_def)
  next
    case False
    then have nb: "in_long (- B)" "in_long (- A)"
      using lt Suc.prems by (auto simp: in_long_def LONG_MIN_def LONG_MAX_def)
    show ?thesis using lt a1 nb ih
      by (subst expand_range.simps) (simp add: upto_rec2 [of B A])
  qed
qed

lemma expand_range_exact:
  assumes "in_long A" and "in_long B"
  shows "expand_range A B (if B < A then - 1 else 1)
           = (if range_within_long A B then Some (inclusive_sequence A B) else None)"
proof (cases "B < A")
  case True
  then show ?thesis using expand_range_down [OF assms] 
    by (simp add: range_within_long_def inclusive_sequence_def)
next
  case False
  then show ?thesis using expand_range_up [OF assms]
    by (simp add: range_within_long_def inclusive_sequence_def)
qed

lemma length_inclusive_sequence:
  "int (length (inclusive_sequence A B)) = \<bar>B - A\<bar> + 1"
  by (simp add: inclusive_sequence_def)

subsection \<open>The loop over the index expressions\<close>

lemma peek_show_long_append:
  "peek (show_long v @ rest) \<noteq> CHR '']'' \<and> \<not> iswspace (peek (show_long v @ rest))
   \<and> peek (show_long v @ rest) \<noteq> CHR ''.''"
proof -
  obtain c cs where c: "show_long v = c # cs" "c = CHR ''-'' \<or> iswdigit c"
    using show_long_first by blast
  then show ?thesis using iswdigit_not_space [of c] by (auto simp: peek_def iswspace_def)
qed

lemma dropWhile_iswspace_idem: "dropWhile iswspace (dropWhile iswspace s) = dropWhile iswspace s"
  by (induction s) auto

lemma parse_index_loop_index:
  assumes "in_long v" and "int n < 2 ^ 63" and "\<not> iswdigit (peek rest)"
    and "peek (dropWhile iswspace rest) \<noteq> CHR ''.''"
  shows "parse_index_loop n (show_long v @ rest) indexes count =
     (if count + 1 > INT_MAX then None
      else parse_index_loop n (dropWhile iswspace rest) (indexes @ [resolved_index n v])
             (count + 1))"
proof -
  note f = fish_wcstol_show_long [OF assms(1,3)]
  note p = peek_show_long_append [of v rest]
  show ?thesis
    using p assms(4) resolved_index_long(1) [OF assms(1,2)]
    by (subst parse_index_loop.simps)
       (simp add: f Let_def dropWhile_iswspace_idem del: dropWhile_eq_Nil_conv)
qed

lemma parse_index_loop_range:
  assumes "in_long a" and "in_long b" and "int n < 2 ^ 63" and "\<not> iswdigit (peek rest)"
  shows "parse_index_loop n (show_long a @ CHR ''.'' # CHR ''.'' # show_long b @ rest) indexes count =
     (if range_within_long (resolved_index n a) (resolved_index n b)
         \<and> count + int (length (inclusive_sequence (resolved_index n a) (resolved_index n b)))
             \<le> INT_MAX
      then parse_index_loop n (dropWhile iswspace rest)
             (indexes @ inclusive_sequence (resolved_index n a) (resolved_index n b))
             (count + int (length (inclusive_sequence (resolved_index n a) (resolved_index n b))))
      else None)"
proof -
  let ?rest1 = "CHR ''.'' # CHR ''.'' # show_long b @ rest"
  have nd: "\<not> iswdigit (peek ?rest1)" by (simp add: peek_def iswdigit_def)
  have sp: "dropWhile iswspace ?rest1 = ?rest1" by (simp add: iswspace_def)
  have f1: "fish_wcstol (show_long a @ ?rest1) = (a, ?rest1, - 1)"
    using fish_wcstol_show_long [OF assms(1) nd] unfolding sp by simp
  note f2 = fish_wcstol_show_long [OF assms(2,4)]
  note p = peek_show_long_append [of a ?rest1]
  note ra = resolved_index_long(1,2) [OF assms(1,3)]
  note rb = resolved_index_long(1,2) [OF assms(2,3)]
  note ex = expand_range_exact [OF ra(2) rb(2)]
  have pk: "peek ?rest1 = CHR ''.''" "peek (tl ?rest1) = CHR ''.''"
    by (simp_all add: peek_def)
  have e: "parse_index_loop n (show_long a @ ?rest1) indexes count =
     (case expand_range (resolved_index n a) (resolved_index n b)
             (if resolved_index n b < resolved_index n a then - 1 else 1) of
        None \<Rightarrow> None
      | Some pushed \<Rightarrow>
          if count + int (length pushed) > INT_MAX then None
          else parse_index_loop n (dropWhile iswspace (dropWhile iswspace rest))
                 (indexes @ pushed) (count + int (length pushed)))"
    using p pk
    by (subst parse_index_loop.simps)
       (simp add: f1 f2 Let_def ra(1) rb(1) del: dropWhile_eq_Nil_conv)
  show ?thesis unfolding e ex dropWhile_iswspace_idem by simp
qed

lemma parse_index_loop_expr:
  assumes "int n < 2 ^ 63" and "expr_within_long n e" and "\<not> iswdigit (peek rest)"
    and "peek (dropWhile iswspace rest) \<noteq> CHR ''.''"
    and "count + int (length (expr_indexes n e)) \<le> INT_MAX"
  shows "parse_index_loop n (render_expr e @ rest) indexes count =
     parse_index_loop n (dropWhile iswspace rest) (indexes @ expr_indexes n e)
       (count + int (length (expr_indexes n e)))"
proof (cases e)
  case (Index v)
  then show ?thesis
    using assms parse_index_loop_index [of v n rest indexes count] by simp
next
  case (Range a b)
  then show ?thesis
    using assms parse_index_loop_range [of a b n rest indexes count] by simp
qed

lemma expr_indexes_not_empty: "expr_indexes n e \<noteq> []"
  by (cases e) (auto simp: inclusive_sequence_def upto_rec1)

lemma render_exprs_first:
  "es \<noteq> [] \<Longrightarrow> \<exists>c cs. render_exprs es @ rest = c # cs \<and> (c = CHR ''-'' \<or> iswdigit c)"
proof (induction es rule: render_exprs.induct)
  case 1
  then show ?case by simp
next
  case (2 e)
  show ?case
  proof (cases e)
    case (Index v)
    then show ?thesis using show_long_first [of v] by auto
  next
    case (Range a b)
    then show ?thesis using show_long_first [of a] by auto
  qed
next
  case (3 e e' es)
  show ?case
  proof (cases e)
    case (Index v)
    then show ?thesis using show_long_first [of v] by auto
  next
    case (Range a b)
    then show ?thesis using show_long_first [of a] by auto
  qed
qed

lemma parse_index_loop_exprs_then:
  assumes "int n < 2 ^ 63" and "\<not> iswdigit (peek rest)"
    and "peek (dropWhile iswspace rest) \<noteq> CHR ''.''"
  shows "es \<noteq> [] \<Longrightarrow> list_all (expr_within_long n) es \<Longrightarrow>
     count + int (length (listed_indexes n es)) \<le> INT_MAX \<Longrightarrow>
     parse_index_loop n (render_exprs es @ rest) indexes count
       = parse_index_loop n (dropWhile iswspace rest) (indexes @ listed_indexes n es)
           (count + int (length (listed_indexes n es)))"
proof (induction es arbitrary: indexes count rule: render_exprs.induct)
  case 1
  then show ?case by simp
next
  case (2 e)
  have c: "count + int (length (expr_indexes n e)) \<le> INT_MAX"
    using 2(3) by (simp add: listed_indexes_def)
  show ?case
    using parse_index_loop_expr [OF assms(1) _ assms(2,3) c, of indexes] 2(2)
    by (simp add: listed_indexes_def)
next
  case (3 e e' es)
  let ?next = "render_exprs (e' # es) @ rest"
  let ?sep = "CHR '' '' # ?next"
  obtain c cs where f: "?next = c # cs" "c = CHR ''-'' \<or> iswdigit c"
    using render_exprs_first [of "e' # es" rest] by auto
  have nsp: "\<not> iswspace c" "c \<noteq> CHR ''.''"
    using f(2) iswdigit_not_space [of c] by (auto simp: iswspace_def)
  have d: "dropWhile iswspace ?sep = ?next"
    unfolding f(1) using nsp by (simp add: iswspace_def)
  have r: "\<not> iswdigit (peek ?sep)" "peek (dropWhile iswspace ?sep) \<noteq> CHR ''.''"
    unfolding d unfolding f(1) using nsp by (simp_all add: peek_def iswdigit_def)
  have l: "listed_indexes n (e # e' # es) = expr_indexes n e @ listed_indexes n (e' # es)"
    by (simp add: listed_indexes_def)
  have c1: "count + int (length (expr_indexes n e)) \<le> INT_MAX"
    using 3(4) unfolding l by simp
  have c2: "count + int (length (expr_indexes n e)) + int (length (listed_indexes n (e' # es)))
      \<le> INT_MAX"
    using 3(4) unfolding l by simp
  have w: "expr_within_long n e" "list_all (expr_within_long n) (e' # es)"
    using 3(3) by simp_all
  have "parse_index_loop n (render_expr e @ ?sep) indexes count =
     parse_index_loop n ?next (indexes @ expr_indexes n e)
       (count + int (length (expr_indexes n e)))"
    using parse_index_loop_expr [OF assms(1) w(1) r c1, of indexes] unfolding d by simp
  also have "\<dots> = parse_index_loop n (dropWhile iswspace rest)
                       ((indexes @ expr_indexes n e) @ listed_indexes n (e' # es))
                       (count + int (length (expr_indexes n e))
                         + int (length (listed_indexes n (e' # es))))"
    by (rule 3(1) [OF _ w(2) c2]) simp
  finally show ?case unfolding l by (simp add: add.assoc)
qed

lemma parse_index_loop_exprs:
  assumes "int n < 2 ^ 63" and "list_all (expr_within_long n) es"
    and "count + int (length (listed_indexes n es)) \<le> INT_MAX"
  shows "parse_index_loop n (render_exprs es @ CHR '']'' # tail) indexes count
       = Some (count + int (length (listed_indexes n es)), indexes @ listed_indexes n es, [])"
proof -
  let ?rest = "CHR '']'' # tail"
  have r: "\<not> iswdigit (peek ?rest)" "peek (dropWhile iswspace ?rest) \<noteq> CHR ''.''"
    "dropWhile iswspace ?rest = ?rest"
    by (simp_all add: peek_def iswdigit_def iswspace_def)
  have b: "parse_index_loop n ?rest ixs c = Some (c, ixs, [])" for ixs c
    by (subst parse_index_loop.simps) (simp add: peek_def)
  show ?thesis
  proof (cases "es = []")
    case True
    then show ?thesis by (simp add: b listed_indexes_def)
  next
    case False
    show ?thesis
      using parse_index_loop_exprs_then [OF assms(1) r(1,2) False assms(2,3), of indexes]
      unfolding r(3) b .
  qed
qed

lemma plain_name_no_bracket: "plain_name name \<Longrightarrow> CHR ''['' \<notin> set name"
  by (induction name) (auto simp: plain_name_def iswalnum_def iswdigit_def)

lemma parse_index_enter:
  assumes "plain_name name"
  shows "parse_index indexes (name @ CHR ''['' # body) name n
           = parse_index_loop n (dropWhile iswspace body) indexes 0"
proof -
  have np: "\<not> (iswalnum (peek (CHR ''['' # body)) \<or> peek (CHR ''['' # body) = CHR ''_'')"
    by (simp add: peek_def iswalnum_def iswdigit_def)
  have d: "dropWhile (\<lambda>c. iswalnum c \<or> c = CHR ''_'') (name @ CHR ''['' # body)
             = CHR ''['' # body"
    using dropWhile_all_then [of "\<lambda>c. iswalnum c \<or> c = CHR ''_''" name "CHR ''['' # body"]
      assms np by (simp add: plain_name_def)
  show ?thesis unfolding parse_index_def d Let_def by (simp add: peek_def)
qed

lemma parse_index_sliced:
  assumes "plain_name name" and "exprs_within_limits n es"
  shows "parse_index indexes (sliced name es) name n
           = Some (int (length (listed_indexes n es)), indexes @ listed_indexes n es, [])"
proof -
  have sp: "dropWhile iswspace (render_exprs es @ '']'') = render_exprs es @ '']''"
  proof (cases "es = []")
    case True
    then show ?thesis by (simp add: iswspace_def)
  next
    case False
    then obtain c cs where f: "render_exprs es @ '']'' = c # cs" "c = CHR ''-'' \<or> iswdigit c"
      using render_exprs_first [of es "'']''"] by auto
    then show ?thesis using iswdigit_not_space [of c] by (auto simp: iswspace_def)
  qed
  have "parse_index indexes (sliced name es) name n
      = parse_index_loop n (render_exprs es @ '']'') indexes 0"
    unfolding sliced_def parse_index_enter [OF assms(1)] sp ..
  also have "\<dots> = Some (0 + int (length (listed_indexes n es)), indexes @ listed_indexes n es, [])"
    using assms(2) parse_index_loop_exprs [of n es 0 "[]" indexes]
    by (simp add: exprs_within_limits_def)
  finally show ?thesis by simp
qed

lemma parse_index_one_range:
  assumes "plain_name name" and "int n < 2 ^ 63" and "in_long a" and "in_long b"
  shows "parse_index indexes (name @ ''['' @ show_long a @ ''..'' @ show_long b @ '']'') name n
     = (if range_within_long (resolved_index n a) (resolved_index n b)
           \<and> \<bar>resolved_index n b - resolved_index n a\<bar> < INT_MAX
        then Some (\<bar>resolved_index n b - resolved_index n a\<bar> + 1,
                   indexes @ inclusive_sequence (resolved_index n a) (resolved_index n b), [])
        else None)"
proof -
  let ?body = "show_long a @ CHR ''.'' # CHR ''.'' # show_long b @ '']''"
  have sp: "dropWhile iswspace ?body = ?body"
    using peek_show_long_append [of a "CHR ''.'' # CHR ''.'' # show_long b @ '']''"]
    by (cases ?body) (auto simp: peek_def)
  have nd: "\<not> iswdigit (peek '']'')" by (simp add: peek_def iswdigit_def)
  have b: "parse_index_loop n '']'' ixs c = Some (c, ixs, [])" for ixs c
    by (subst parse_index_loop.simps) (simp add: peek_def)
  have d: "dropWhile iswspace '']'' = '']''" by (simp add: iswspace_def)
  have e: "parse_index indexes (name @ CHR ''['' # ?body) name n
      = parse_index_loop n ?body indexes 0"
    unfolding parse_index_enter [OF assms(1)] sp ..
  note step = parse_index_loop_range [OF assms(3,4,2) nd, of indexes 0, unfolded d b]
  have t: "name @ ''['' @ show_long a @ ''..'' @ show_long b @ '']'' = name @ CHR ''['' # ?body"
    by simp
  show ?thesis
    unfolding t e step by (simp add: length_inclusive_sequence)
qed

lemma parse_index_one_index:
  assumes "plain_name name" and "int n < 2 ^ 63" and "in_long v"
  shows "parse_index indexes (name @ ''['' @ show_long v @ '']'') name n
     = Some (1, indexes @ [resolved_index n v], [])"
proof -
  have w: "exprs_within_limits n [Index v]"
    using assms(2,3) by (simp add: exprs_within_limits_def listed_indexes_def INT_MAX_def)
  show ?thesis
    using parse_index_sliced [OF assms(1) w, of indexes]
    by (simp add: sliced_def listed_indexes_def)
qed

lemma parse_index_below_long:
  assumes "plain_name name" and "v < LONG_MIN"
  shows "parse_index indexes (name @ ''['' @ show_long v @ '']'') name n
     = Some (0, indexes,
             [''set: Invalid index starting at '' @ [CHR 0x27] @ show_long v @ '']''
                @ [CHR 0x27] @ [CHR 0x0A]])"
proof -
  let ?body = "show_long v @ '']''"
  have nd: "\<not> iswdigit (peek '']'')" by (simp add: peek_def iswdigit_def)
  note p = peek_show_long_append [of v "'']''"]
  have sp: "dropWhile iswspace ?body = ?body"
    using p by (cases ?body) (auto simp: peek_def)
  note f = fish_wcstol_show_long_below [OF assms(2) nd]
  have l: "parse_index_loop n ?body indexes 0
     = Some (0, indexes,
             [''set: Invalid index starting at '' @ [CHR 0x27] @ ?body @ [CHR 0x27]
                @ [CHR 0x0A]])"
    using p by (subst parse_index_loop.simps) (simp add: f ERANGE_def)
  show ?thesis
    using parse_index_enter [OF assms(1), of indexes ?body n] l unfolding sp by simp
qed

text \<open>
  C3. For every name of letters, digits and underscores, every length
  \<open>var_count\<close> below \<open>2 ^ 63\<close> and every negative \<open>v\<close> that a \<open>long\<close>
  holds, \<open>parse_index\<close> called on \<open>name[v]\<close> returns 1 and appends
  \<open>var_count + v + 1\<close> to the indexes, where \<open>var_count\<close> is the length the
  caller passes. In a range each endpoint is resolved in this way on its own before
  the range is expanded: \<open>name[v..w]\<close> and \<open>name[u..v]\<close> give the inclusive
  sequence between the resolved endpoints when its loop stays within \<open>long\<close> and
  its length within \<open>int\<close>, and the call does not return otherwise. The same holds
  at every place of a list of index expressions within these limits. A negative
  integer below the range of \<open>long\<close> is not taken as an index: the call fails
  with the message for an invalid index. For the length 5, \<open>-1\<close> gives 5 and \<open>-5\<close> gives 1. The length is the one read before the
  update: on \<open>foo\<close> of three elements, \<open>set foo[4 -1] a b\<close> writes \<open>b\<close> at
  index 3, not at the new last index 4.
\<close>

theorem parse_index_resolves_negative_indexes:
  assumes "plain_name name" and "int var_count < 2 ^ 63" and "LONG_MIN \<le> v" and "v < 0"
  shows "parse_index indexes (name @ ''['' @ show_long v @ '']'') name var_count
           = Some (1, indexes @ [int var_count + v + 1], [])
       \<and> (\<forall>w. in_long w \<longrightarrow>
            parse_index indexes (name @ ''['' @ show_long v @ ''..'' @ show_long w @ '']'')
              name var_count
            = (if range_within_long (int var_count + v + 1) (resolved_index var_count w)
                  \<and> \<bar>resolved_index var_count w - (int var_count + v + 1)\<bar> < INT_MAX
               then Some (\<bar>resolved_index var_count w - (int var_count + v + 1)\<bar> + 1,
                          indexes
                          @ inclusive_sequence (int var_count + v + 1)
                              (resolved_index var_count w),
                          [])
               else None))
       \<and> (\<forall>u. in_long u \<longrightarrow>
            parse_index indexes (name @ ''['' @ show_long u @ ''..'' @ show_long v @ '']'')
              name var_count
            = (if range_within_long (resolved_index var_count u) (int var_count + v + 1)
                  \<and> \<bar>int var_count + v + 1 - resolved_index var_count u\<bar> < INT_MAX
               then Some (\<bar>int var_count + v + 1 - resolved_index var_count u\<bar> + 1,
                          indexes
                          @ inclusive_sequence (resolved_index var_count u)
                              (int var_count + v + 1),
                          [])
               else None))
       \<and> (\<forall>es. exprs_within_limits var_count es \<longrightarrow>
            parse_index indexes (sliced name es) name var_count
            = Some (int (length (listed_indexes var_count es)),
                    indexes @ listed_indexes var_count es, []))
       \<and> (\<forall>u. u < LONG_MIN \<longrightarrow>
            parse_index indexes (name @ ''['' @ show_long u @ '']'') name var_count
            = Some (0, indexes,
                    [''set: Invalid index starting at '' @ [CHR 0x27] @ show_long u @ '']''
                       @ [CHR 0x27] @ [CHR 0x0A]]))
       \<and> parse_index [] ''foo[-1]'' ''foo'' 5 = Some (1, [5], [])
       \<and> parse_index [] ''foo[-5]'' ''foo'' 5 = Some (1, [1], [])
       \<and> builtin_set (example_world False 0)
            [(''foo'', ''x'' @ [ARRAY_SEP] @ ''y'' @ [ARRAY_SEP] @ ''z'')] ''set'' []
            [''foo[4 -1]'', ''a'', ''b'']
          = Some \<lparr>status = 0,
                  vars = [(''foo'', ''x'' @ [ARRAY_SEP] @ ''y'' @ [ARRAY_SEP] @ ''b''
                                      @ [ARRAY_SEP] @ ''a'')],
                  stdout = [], stderr = []\<rparr>"
proof -
  have v: "in_long v" using assms(3,4) by (simp add: in_long_def LONG_MAX_def)
  have r: "resolved_index var_count v = int var_count + v + 1"
    using assms(4) by (simp add: resolved_index_def)
  note one = parse_index_one_index [OF assms(1,2) v, of indexes, unfolded r]
  have first: "parse_index indexes (name @ ''['' @ show_long v @ ''..'' @ show_long w @ '']'')
              name var_count
            = (if range_within_long (int var_count + v + 1) (resolved_index var_count w)
                  \<and> \<bar>resolved_index var_count w - (int var_count + v + 1)\<bar> < INT_MAX
               then Some (\<bar>resolved_index var_count w - (int var_count + v + 1)\<bar> + 1,
                          indexes
                          @ inclusive_sequence (int var_count + v + 1)
                              (resolved_index var_count w),
                          [])
               else None)" if "in_long w" for w
    using parse_index_one_range [OF assms(1,2) v that, of indexes] unfolding r .
  have second: "parse_index indexes (name @ ''['' @ show_long u @ ''..'' @ show_long v @ '']'')
              name var_count
            = (if range_within_long (resolved_index var_count u) (int var_count + v + 1)
                  \<and> \<bar>int var_count + v + 1 - resolved_index var_count u\<bar> < INT_MAX
               then Some (\<bar>int var_count + v + 1 - resolved_index var_count u\<bar> + 1,
                          indexes
                          @ inclusive_sequence (resolved_index var_count u)
                              (int var_count + v + 1),
                          [])
               else None)" if "in_long u" for u
    using parse_index_one_range [OF assms(1,2) that v, of indexes] unfolding r .
  have lists: "parse_index indexes (sliced name es) name var_count
            = Some (int (length (listed_indexes var_count es)),
                    indexes @ listed_indexes var_count es, [])"
    if "exprs_within_limits var_count es" for es
    by (rule parse_index_sliced [OF assms(1) that])
  have below: "parse_index indexes (name @ ''['' @ show_long u @ '']'') name var_count
            = Some (0, indexes,
                    [''set: Invalid index starting at '' @ [CHR 0x27] @ show_long u @ '']''
                       @ [CHR 0x27] @ [CHR 0x0A]])"
    if "u < LONG_MIN" for u
    by (rule parse_index_below_long [OF assms(1) that])
  have e1: "parse_index [] ''foo[-1]'' ''foo'' 5 = Some (1, [5], [])" by code_simp
  have e2: "parse_index [] ''foo[-5]'' ''foo'' 5 = Some (1, [1], [])" by code_simp
  have e3: "builtin_set (example_world False 0)
            [(''foo'', ''x'' @ [ARRAY_SEP] @ ''y'' @ [ARRAY_SEP] @ ''z'')] ''set'' []
            [''foo[4 -1]'', ''a'', ''b'']
          = Some \<lparr>status = 0,
                  vars = [(''foo'', ''x'' @ [ARRAY_SEP] @ ''y'' @ [ARRAY_SEP] @ ''b''
                                      @ [ARRAY_SEP] @ ''a'')],
                  stdout = [], stderr = []\<rparr>"
    by code_simp
  show ?thesis using one first second lists below e1 e2 e3 by blast
qed

theorem parse_index_resolves_negative_indexes_witness:
  "parse_index [7] ''foo[-2]'' ''foo'' 5 = Some (1, [7, 4], [])
   \<and> parse_index [7] ''foo[-2..2]'' ''foo'' 5 = Some (3, [7, 4, 3, 2], [])
   \<and> parse_index [7] ''foo[-4..-2]'' ''foo'' 5 = Some (3, [7, 2, 3, 4], [])
   \<and> parse_index [7] ''foo[1 -2 -1..-2]'' ''foo'' 5 = Some (4, [7, 1, 4, 5, 4], [])"
proof -
  have p: "plain_name ''foo''" by code_simp
  have n: "int 5 < 2 ^ 63" by simp
  have v: "LONG_MIN \<le> - 2" "(- 2 :: int) < 0" by (simp_all add: LONG_MIN_def)
  note t = parse_index_resolves_negative_indexes [OF p n v, of "[7]"]
  have s: "show_long (- 2) = ''-2''" "show_long 2 = ''2''" "show_long (- 4) = ''-4''"
    by code_simp+
  have w: "in_long 2" "in_long (- 4)" by code_simp+
  have c1: "range_within_long (int 5 + - 2 + 1) (resolved_index 5 2)
      \<and> \<bar>resolved_index 5 2 - (int 5 + - 2 + 1)\<bar> < INT_MAX"
    by code_simp
  have q1: "inclusive_sequence (int 5 + - 2 + 1) (resolved_index 5 2) = [4, 3, 2]"
    "\<bar>resolved_index 5 2 - (int 5 + - 2 + 1)\<bar> + 1 = 3"
    by code_simp+
  have c2: "range_within_long (resolved_index 5 (- 4)) (int 5 + - 2 + 1)
      \<and> \<bar>int 5 + - 2 + 1 - resolved_index 5 (- 4)\<bar> < INT_MAX"
    by code_simp
  have q2: "inclusive_sequence (resolved_index 5 (- 4)) (int 5 + - 2 + 1) = [2, 3, 4]"
    "\<bar>int 5 + - 2 + 1 - resolved_index 5 (- 4)\<bar> + 1 = 3"
    by code_simp+
  have l: "exprs_within_limits 5 [Index 1, Index (- 2), Range (- 1) (- 2)]" by code_simp
  have ls: "sliced ''foo'' [Index 1, Index (- 2), Range (- 1) (- 2)] = ''foo[1 -2 -1..-2]''"
    "listed_indexes 5 [Index 1, Index (- 2), Range (- 1) (- 2)] = [1, 4, 5, 4]"
    by code_simp+
  have a: "parse_index [7] ''foo[-2]'' ''foo'' 5 = Some (1, [7, 4], [])"
    using t [THEN conjunct1] unfolding s by simp
  have b: "parse_index [7] ''foo[-2..2]'' ''foo'' 5 = Some (3, [7, 4, 3, 2], [])"
    using t [THEN conjunct2, THEN conjunct1, rule_format, OF w(1)] c1
    unfolding s q1 by simp
  have c: "parse_index [7] ''foo[-4..-2]'' ''foo'' 5 = Some (3, [7, 2, 3, 4], [])"
    using t [THEN conjunct2, THEN conjunct2, THEN conjunct1, rule_format, OF w(2)] c2
    unfolding s q2 by simp
  have d: "parse_index [7] ''foo[1 -2 -1..-2]'' ''foo'' 5 = Some (4, [7, 1, 4, 5, 4], [])"
    using t [THEN conjunct2, THEN conjunct2, THEN conjunct2, THEN conjunct1, rule_format, OF l]
    unfolding ls by simp
  show ?thesis using a b c d by simp
qed

text \<open>
  C4. The loop of a range at the ends of \<open>long\<close>. For an ascending range whose
  last element is \<open>LONG_MAX\<close> the test \<open>jjj * direction <= l_ind2 * direction\<close>
  never fails and \<open>jjj += direction\<close> overflows; a descending range that ends at
  \<open>LONG_MIN + 1\<close> overflows in the same way when \<open>jjj\<close> is negated. The call
  does not return the two-element sequences the ranges denote, and neither does a
  query with such a range. Away from the ends the loop gives the inclusive sequence:
  \<open>1..3\<close> gives 1, 2, 3 and \<open>3..1\<close> gives 3, 2, 1.
\<close>

theorem parse_index_range_overflows_at_long_max:
  "parse_index [] ''foo[9223372036854775806..9223372036854775807]'' ''foo'' 3 = None
   \<and> parse_index [] ''foo[-9223372036854775807..-9223372036854775808]'' ''foo'' 0 = None
   \<and> parse_index [] ''foo[9223372036854775805..9223372036854775806]'' ''foo'' 3
       = Some (2, [9223372036854775805, 9223372036854775806], [])
   \<and> parse_index [] ''foo[1..3]'' ''foo'' 3 = Some (3, [1, 2, 3], [])
   \<and> parse_index [] ''foo[3..1]'' ''foo'' 3 = Some (3, [3, 2, 1], [])
   \<and> builtin_set (example_world False 0) [(''foo'', ''x'')] ''set'' [(CHR ''q'', ''-q'')]
        [''foo[9223372036854775806..9223372036854775807]''] = None"
  by code_simp

theorem parse_index_range_overflows_at_long_max_witness:
  "parse_index [] ''foo[9223372036854775806..9223372036854775807]'' ''foo'' 3
     \<noteq> Some (2, [9223372036854775806, 9223372036854775807], [])"
  using parse_index_range_overflows_at_long_max by simp

text \<open>
  C5. What the code does when the upper bound of a range is not an integer: the loop
  stops and returns 1, and the lower index, already read, is not added to the list.
  The list holds what was pushed before the range, and the value returned is 1
  whatever that number is.
\<close>

theorem parse_index_malformed_upper_bound:
  "parse_index [] ''foo[3..x]'' ''foo'' 5 = Some (1, [], [])
   \<and> parse_index [] ''foo[1 2 3..x]'' ''foo'' 5 = Some (1, [1, 2], [])"
  by code_simp

theorem parse_index_malformed_upper_bound_witness:
  "map_option fst (parse_index [] ''foo[3..x]'' ''foo'' 5) = Some 1
   \<and> map_option (\<lambda>r. 3 \<in> set (fst (snd r))) (parse_index [] ''foo[3..x]'' ''foo'' 5)
       = Some False"
  using parse_index_malformed_upper_bound by simp

section \<open>Path variables\<close>

lemma string_prefixes_root:
  "string_prefixes_string ''/'' dir \<longleftrightarrow> dir \<noteq> [] \<and> hd dir = CHR ''/''"
  by (cases dir) (simp_all add: string_prefixes_string_def)

lemma path_existing_values_member:
  "dir \<in> set (path_existing_values X st key) \<longleftrightarrow> already_present X st key dir"
  by (cases "env_get_string X st key {}")
     (auto simp: path_existing_values_def already_present_def)

lemma path_entry_errno_none:
  "path_entry_errno X dir = None \<longleftrightarrow> searchable_directory X dir"
  by (auto simp: path_entry_errno_def searchable_directory_def split: sum.splits)

lemma path_entry_errno_some:
  "path_entry_errno X dir = Some errno \<Longrightarrow> errno = path_error X dir"
  by (auto simp: path_entry_errno_def path_error_def split: sum.splits if_splits)

lemma tl_dropWhile_colon:
  "tl (dropWhile (\<lambda>c. c \<noteq> CHR '':'') dir) = text_after_colon dir"
  by (simp add: text_after_colon_def dropWhile_eq_drop tl_drop drop_Suc)

lemma path_entry_messages_warnings:
  "path_entry_messages X key dir (path_error X dir) = entry_warnings X key dir"
proof -
  have "tl (dropWhile (\<lambda>c. c \<noteq> CHR '':'') dir) \<noteq> []
          \<Longrightarrow> dropWhile (\<lambda>c. c \<noteq> CHR '':'') dir \<noteq> []"
    by (cases "dropWhile (\<lambda>c. c \<noteq> CHR '':'') dir") simp_all
  then show ?thesis
    unfolding path_entry_messages_def entry_warnings_def Let_def tl_dropWhile_colon [symmetric]
    by (auto simp del: dropWhile_eq_Nil_conv)
qed

lemma validate_path_loop_step:
  "validate_path_loop X key (path_existing_values X st key) (dir # rest) any_success =
     (if passes_validation X st key dir
      then validate_path_loop X key (path_existing_values X st key) rest True
      else (fst (validate_path_loop X key (path_existing_values X st key) rest any_success),
            entry_warnings X key dir
            @ snd (validate_path_loop X key (path_existing_values X st key) rest any_success)))"
proof (cases "\<not> string_prefixes_string ''/'' dir \<or> dir \<in> set (path_existing_values X st key)")
  case True
  then have "passes_validation X st key dir"
    by (auto simp: passes_validation_def string_prefixes_root path_existing_values_member)
  then show ?thesis using True by simp
next
  case False
  then have np: "passes_validation X st key dir \<longleftrightarrow> searchable_directory X dir"
    by (auto simp: passes_validation_def string_prefixes_root path_existing_values_member)
  show ?thesis
  proof (cases "path_entry_errno X dir")
    case None
    then show ?thesis using False np by (simp add: path_entry_errno_none [symmetric])
  next
    case (Some errno)
    then have "\<not> searchable_directory X dir"
      by (simp add: path_entry_errno_none [symmetric])
    moreover have "path_entry_messages X key dir errno = entry_warnings X key dir"
      using path_entry_errno_some [OF Some] path_entry_messages_warnings by simp
    ultimately show ?thesis using False np Some by (simp add: case_prod_beta)
  qed
qed

lemma validate_path_loop_any_success:
  "fst (validate_path_loop X key (path_existing_values X st key) vals any_success)
     = (any_success \<or> (\<exists>dir\<in>set vals. passes_validation X st key dir))"
proof (induction vals arbitrary: any_success)
  case Nil
  then show ?case by simp
next
  case (Cons d vals)
  show ?case
    unfolding validate_path_loop_step
    using Cons.IH [of True] Cons.IH [of any_success] by auto
qed

lemma validate_path_loop_warnings:
  "snd (validate_path_loop X key (path_existing_values X st key) vals any_success)
     = validation_warnings X st key vals"
proof (induction vals arbitrary: any_success)
  case Nil
  then show ?case by (simp add: validation_warnings_def)
next
  case (Cons d vals)
  have tail: "validation_warnings X st key (d # vals)
      = (if passes_validation X st key d then [] else entry_warnings X key d)
        @ validation_warnings X st key vals"
    by (simp add: validation_warnings_def)
  show ?case
    unfolding validate_path_loop_step tail
    using Cons.IH [of True] Cons.IH [of any_success] by auto
qed

lemma env_set_list_store_write: "env_set_list X st key vals scope = store_write X st key vals scope"
  by (simp add: env_set_list_def store_write_def Let_def)

lemma my_env_set_path:
  assumes "is_path_variable key"
  shows "my_env_set X st key vals scope =
     (if vals \<noteq> [] \<and> \<not> (\<exists>dir\<in>set vals. passes_validation X st key dir)
      then (STATUS_CMD_ERROR, st, validation_warnings X st key vals)
      else
        (fst (env_set_status key (fst (store_write X st key vals scope))),
         snd (store_write X st key vals scope),
         validation_warnings X st key vals
         @ snd (env_set_status key (fst (store_write X st key vals scope)))))"
proof -
  let ?checked = "validate_path_loop X key (path_existing_values X st key) vals False"
  have f: "fst ?checked = (\<exists>dir\<in>set vals. passes_validation X st key dir)"
    by (simp add: validate_path_loop_any_success)
  have s: "snd ?checked = validation_warnings X st key vals"
    by (rule validate_path_loop_warnings)
  show ?thesis
    unfolding my_env_set_def Let_def env_set_list_store_write using assms
    by (simp only: if_True f s) (simp add: case_prod_beta)
qed

lemma env_set_status_ok:
  "fst (env_set_status key retcode) = STATUS_CMD_OK \<longleftrightarrow> retcode = ENV_OK"
  by (cases retcode) (simp_all add: env_set_status_def STATUS_CMD_OK_def STATUS_CMD_ERROR_def)

lemma env_set_status_ok_silent: "env_set_status key ENV_OK = (STATUS_CMD_OK, [])"
  by (simp add: env_set_status_def)

text \<open>
  C6. For a path variable (\<open>PATH\<close> or \<open>CDPATH\<close>), validation fails the
  assignment exactly when the list of values is not empty and none of them passes;
  the store is then left as it was. A value passes when it does not start with
  \<open>/\<close>, or is an element of the value the variable has in the default scope
  (whatever the file system says of it), or names an existing directory with
  traversal permission. When the list is empty or some value passes, the values are
  handed to the store, the assignment succeeds if the store accepts the write, and
  the error stream holds the warnings of the failing entries, in their order, and
  nothing else. The return code is then the store's verdict: validation alone never
  fails such an assignment.
\<close>

theorem my_env_set_path_any_success_rule:
  assumes "key = ''PATH'' \<or> key = ''CDPATH''"
  shows "(values \<noteq> [] \<and> (\<forall>dir\<in>set values. \<not> passes_validation X st key dir)
          \<longrightarrow> my_env_set X st key values scope
                = (STATUS_CMD_ERROR, st, validation_warnings X st key values))
       \<and> ((values = [] \<or> (\<exists>dir\<in>set values. passes_validation X st key dir))
           \<and> fst (store_write X st key values scope) = ENV_OK
          \<longrightarrow> my_env_set X st key values scope
                = (STATUS_CMD_OK, snd (store_write X st key values scope),
                   validation_warnings X st key values))
       \<and> ((values = [] \<or> (\<exists>dir\<in>set values. passes_validation X st key dir))
          \<longrightarrow> (fst (my_env_set X st key values scope) = STATUS_CMD_OK
                 \<longleftrightarrow> fst (store_write X st key values scope) = ENV_OK)
              \<and> fst (snd (my_env_set X st key values scope))
                  = snd (store_write X st key values scope)
              \<and> prefix (validation_warnings X st key values)
                  (snd (snd (my_env_set X st key values scope))))"
proof -
  have p: "is_path_variable key" using assms by (auto simp: is_path_variable_def)
  show ?thesis
    unfolding my_env_set_path [OF p]
    by (auto simp: env_set_status_ok env_set_status_ok_silent)
qed

theorem my_env_set_path_any_success_rule_witness:
  "my_env_set (example_world False 0) [(''PATH'', ''/gone/dir'')] ''PATH''
     [''/not/a/dir'', ''/gone/dir'', ''/etc/passwd'', ''/opt/a:/opt/b''] {}
     = (0, [(''PATH'', ''/not/a/dir'' @ [ARRAY_SEP] @ ''/gone/dir'' @ [ARRAY_SEP]
                        @ ''/etc/passwd'' @ [ARRAY_SEP] @ ''/opt/a:/opt/b'')],
        [BUILTIN_SET_PATH_ERROR ''set'' ''PATH'' ''/not/a/dir'' ''No such file or directory'',
         BUILTIN_SET_PATH_ERROR ''set'' ''PATH'' ''/etc/passwd'' ''Not a directory'',
         BUILTIN_SET_PATH_ERROR ''set'' ''PATH'' ''/opt/a:/opt/b'' ''No such file or directory'',
         BUILTIN_SET_PATH_HINT ''set'' ''PATH'' ''PATH'' ''/opt/b''])
   \<and> my_env_set (example_world False 0) [(''PATH'', ''/gone/dir'')] ''PATH''
       [''/not/a/dir'', ''/etc/passwd''] {}
     = (1, [(''PATH'', ''/gone/dir'')],
        [BUILTIN_SET_PATH_ERROR ''set'' ''PATH'' ''/not/a/dir'' ''No such file or directory'',
         BUILTIN_SET_PATH_ERROR ''set'' ''PATH'' ''/etc/passwd'' ''Not a directory''])
   \<and> my_env_set (example_world False 0) [(''PATH'', ''/gone/dir'')] ''CDPATH''
       [''/gone/dir'', ''src''] {}
     = (0, [(''CDPATH'', ''/gone/dir'' @ [ARRAY_SEP] @ ''src''), (''PATH'', ''/gone/dir'')],
        [BUILTIN_SET_PATH_ERROR ''set'' ''CDPATH'' ''/gone/dir'' ''No such file or directory''])"
proof -
  let ?X = "example_world False 0"
  let ?st = "[(''PATH'', ''/gone/dir'')]"
  let ?some = "[''/not/a/dir'', ''/gone/dir'', ''/etc/passwd'', ''/opt/a:/opt/b'']"
  let ?none = "[''/not/a/dir'', ''/etc/passwd'']"
  let ?cd = "[''/gone/dir'', ''src'']"
  have k: "''PATH'' = ''PATH'' \<or> ''PATH'' = ''CDPATH''"
    "''CDPATH'' = ''PATH'' \<or> ''CDPATH'' = ''CDPATH''"
    by simp_all
  have some: "(?some = [] \<or> (\<exists>dir\<in>set ?some. passes_validation ?X ?st ''PATH'' dir))
      \<and> fst (store_write ?X ?st ''PATH'' ?some {}) = ENV_OK"
    by code_simp
  have none: "?none \<noteq> [] \<and> (\<forall>dir\<in>set ?none. \<not> passes_validation ?X ?st ''PATH'' dir)"
    by code_simp
  have cd: "(?cd = [] \<or> (\<exists>dir\<in>set ?cd. passes_validation ?X ?st ''CDPATH'' dir))
      \<and> fst (store_write ?X ?st ''CDPATH'' ?cd {}) = ENV_OK"
    by code_simp
  have written: "snd (store_write ?X ?st ''PATH'' ?some {})
      = [(''PATH'', ''/not/a/dir'' @ [ARRAY_SEP] @ ''/gone/dir'' @ [ARRAY_SEP]
                        @ ''/etc/passwd'' @ [ARRAY_SEP] @ ''/opt/a:/opt/b'')]"
    "snd (store_write ?X ?st ''CDPATH'' ?cd {})
      = [(''CDPATH'', ''/gone/dir'' @ [ARRAY_SEP] @ ''src''), (''PATH'', ''/gone/dir'')]"
    by code_simp+
  have w: "validation_warnings ?X ?st ''PATH'' ?some
      = [BUILTIN_SET_PATH_ERROR ''set'' ''PATH'' ''/not/a/dir'' ''No such file or directory'',
         BUILTIN_SET_PATH_ERROR ''set'' ''PATH'' ''/etc/passwd'' ''Not a directory'',
         BUILTIN_SET_PATH_ERROR ''set'' ''PATH'' ''/opt/a:/opt/b'' ''No such file or directory'',
         BUILTIN_SET_PATH_HINT ''set'' ''PATH'' ''PATH'' ''/opt/b'']"
    "validation_warnings ?X ?st ''PATH'' ?none
      = [BUILTIN_SET_PATH_ERROR ''set'' ''PATH'' ''/not/a/dir'' ''No such file or directory'',
         BUILTIN_SET_PATH_ERROR ''set'' ''PATH'' ''/etc/passwd'' ''Not a directory'']"
    "validation_warnings ?X ?st ''CDPATH'' ?cd
      = [BUILTIN_SET_PATH_ERROR ''set'' ''CDPATH'' ''/gone/dir'' ''No such file or directory'']"
    by code_simp+
  note t1 = my_env_set_path_any_success_rule [OF k(1), of ?some ?X ?st "{}"]
  note t2 = my_env_set_path_any_success_rule [OF k(1), of ?none ?X ?st "{}"]
  note t3 = my_env_set_path_any_success_rule [OF k(2), of ?cd ?X ?st "{}"]
  have a: "my_env_set ?X ?st ''PATH'' ?some {}
      = (STATUS_CMD_OK, snd (store_write ?X ?st ''PATH'' ?some {}),
         validation_warnings ?X ?st ''PATH'' ?some)"
    by (rule t1 [THEN conjunct2, THEN conjunct1, THEN mp, OF some])
  have b: "my_env_set ?X ?st ''PATH'' ?none {}
      = (STATUS_CMD_ERROR, ?st, validation_warnings ?X ?st ''PATH'' ?none)"
    by (rule t2 [THEN conjunct1, THEN mp, OF none])
  have c: "my_env_set ?X ?st ''CDPATH'' ?cd {}
      = (STATUS_CMD_OK, snd (store_write ?X ?st ''CDPATH'' ?cd {}),
         validation_warnings ?X ?st ''CDPATH'' ?cd)"
    by (rule t3 [THEN conjunct2, THEN conjunct1, THEN mp, OF cd])
  show ?thesis
    unfolding a b c written w by (simp add: STATUS_CMD_OK_def STATUS_CMD_ERROR_def)
qed

section \<open>A bounds error in a slice update\<close>

text \<open>
  C1. What the code does when an index of a slice update resolves below 1:
  \<open>update_values\<close> stops there and returns 1, the pairs before it are already
  written into the array, and \<open>builtin_set\<close> prints the bounds error, then writes
  that array to the store all the same and returns the status of a success. With
  \<open>foo\<close> holding \<open>x y\<close>, the invocation \<open>set foo[1 0] a b\<close> leaves \<open>a y\<close> in
  the store.
\<close>

theorem builtin_set_bounds_error_still_writes:
  "update_values [''x'', ''y''] [1, 0] [''a'', ''b''] = Some (1, [''a'', ''y''])
   \<and> builtin_set (example_world False 0) [(''foo'', ''x'' @ [ARRAY_SEP] @ ''y'')] ''set'' []
        [''foo[1 0]'', ''a'', ''b'']
     = Some \<lparr>status = 0, vars = [(''foo'', ''a'' @ [ARRAY_SEP] @ ''y'')], stdout = [],
             stderr = [''set: '', ''Array index out of bounds'', [CHR 0x0A]]\<rparr>"
  by code_simp

section \<open>The query mode\<close>

lemma listed_indexes_not_empty: "es \<noteq> [] \<Longrightarrow> listed_indexes n es \<noteq> []"
  by (cases es) (simp_all add: listed_indexes_def expr_indexes_not_empty)

lemma takeWhile_plain_name:
  "plain_name name \<Longrightarrow> takeWhile (\<lambda>c. c \<noteq> CHR ''['') (name @ CHR ''['' # body) = name"
  using plain_name_no_bracket [of name] by (induction name) (auto simp: plain_name_def)

lemma query_count_filter:
  "filter (\<lambda>idx. idx < 1 \<or> nat idx > n) indexes
     = filter (\<lambda>idx. idx < 1 \<or> int n < idx) indexes"
  by (rule filter_cong) auto

lemma target_missing_nonneg: "0 \<le> target_missing X st scope t"
  by (cases t) simp_all

lemma query_loop_target:
  assumes "target_well_formed X st scope t"
    and "retcode + target_missing X st scope t \<le> INT_MAX"
  shows "query_loop X st cmd scope (render_target t # rest) retcode
           = query_loop X st cmd scope rest (retcode + target_missing X st scope t)"
proof (cases t)
  case (Bare name)
  then show ?thesis using assms by auto
next
  case (Sliced name es)
  let ?n = "length (target_array X st scope name)"
  have w: "plain_name name" "es \<noteq> []" "exprs_within_limits ?n es"
    using assms(1) Sliced by simp_all
  have b: "CHR ''['' \<in> set (sliced name es)" by (simp add: sliced_def)
  have d: "takeWhile (\<lambda>c. c \<noteq> CHR ''['') (sliced name es) = name"
    unfolding sliced_def by (rule takeWhile_plain_name [OF w(1)])
  have p: "parse_index [] (sliced name es) name ?n
      = Some (int (length (listed_indexes ?n es)), listed_indexes ?n es, [])"
    using parse_index_sliced [OF w(1,3), of "[]"] by simp
  have nz: "int (length (listed_indexes ?n es)) \<noteq> 0"
    using listed_indexes_not_empty [OF w(2), of ?n] by simp
  have m: "target_missing X st scope t
      = int (length (filter (\<lambda>idx. idx < 1 \<or> nat idx > ?n) (listed_indexes ?n es)))"
    unfolding Sliced by (simp add: query_count_filter)
  have id: "map_option (\<lambda>(r, later). (r, [] @ later)) x = x" for x :: "(int \<times> string list) option"
    by (cases x) auto
  show ?thesis
    using assms(2) nz unfolding m
    by (simp add: Sliced b d target_array_def [symmetric] p Let_def id option.map_id
          del: of_nat_eq_0_iff)
qed

lemma query_loop_targets:
  "\<forall>t\<in>set targets. target_well_formed X st scope t \<Longrightarrow>
   retcode + sum_list (map (target_missing X st scope) targets) \<le> INT_MAX \<Longrightarrow>
   query_loop X st cmd scope (map render_target targets @ rest) retcode
     = query_loop X st cmd scope rest
         (retcode + sum_list (map (target_missing X st scope) targets))"
proof (induction targets arbitrary: retcode)
  case Nil
  then show ?case by simp
next
  case (Cons t targets)
  have nn: "0 \<le> sum_list (map (target_missing X st scope) targets)"
    by (rule sum_list_nonneg) (auto simp: target_missing_nonneg)
  have c1: "retcode + target_missing X st scope t \<le> INT_MAX"
    using Cons.prems(2) nn by simp
  have c2: "retcode + target_missing X st scope t
              + sum_list (map (target_missing X st scope) targets) \<le> INT_MAX"
    using Cons.prems(2) by simp
  have w: "target_well_formed X st scope t" "\<forall>t\<in>set targets. target_well_formed X st scope t"
    using Cons.prems(1) by simp_all
  show ?case
    using query_loop_target [OF w(1) c1, of cmd "map render_target targets @ rest"]
      Cons.IH [OF w(2) c2]
    by (simp add: add.assoc)
qed

lemma parse_index_loop_unreadable:
  assumes "unreadable_index junk"
  shows "parse_index_loop n junk indexes count
     = Some (0, indexes,
             [''set: Invalid index starting at '' @ [CHR 0x27] @ junk @ [CHR 0x27]
                @ [CHR 0x0A]])"
proof -
  obtain c cs where j: "junk = c # cs" using assms by (cases junk) (auto simp: unreadable_index_def)
  have c: "\<not> iswspace c" "\<not> iswdigit c" "c \<noteq> CHR ''-''" "c \<noteq> CHR ''+''" "c \<noteq> CHR '']''"
    using assms j by (simp_all add: unreadable_index_def)
  have sp: "dropWhile iswspace junk = junk" using j c by simp
  have w: "wcstol junk = (0, junk, 0)"
    unfolding wcstol_def sp Let_def using j c by (simp add: peek_def)
  have f: "fish_wcstol junk = (0, junk, EINVAL)"
    using fish_wcstol_text [of junk 0 junk 0] w sp j by simp
  have pk: "peek junk \<noteq> CHR '']''" using j c by (simp add: peek_def)
  show ?thesis
    using pk by (subst parse_index_loop.simps) (simp add: f EINVAL_def)
qed

lemma parse_index_broken_slice:
  assumes "plain_name name" and "exprs_within_limits n es" and "unreadable_index junk"
  shows "parse_index indexes (broken_slice name es junk) name n
     = Some (0, indexes @ listed_indexes n es,
             [''set: Invalid index starting at '' @ [CHR 0x27] @ junk @ [CHR 0x27]
                @ [CHR 0x0A]])"
proof -
  obtain c cs where j: "junk = c # cs" "\<not> iswspace c" "\<not> iswdigit c" "c \<noteq> CHR ''.''"
    using assms(3) by (cases junk) (auto simp: unreadable_index_def)
  have sp: "dropWhile iswspace junk = junk" using j by simp
  show ?thesis
  proof (cases "es = []")
    case True
    then show ?thesis
      using parse_index_enter [OF assms(1), of indexes junk n] sp
        parse_index_loop_unreadable [OF assms(3), of n indexes 0]
      by (simp add: broken_slice_def listed_indexes_def)
  next
    case False
    let ?rest = "CHR '' '' # junk"
    obtain d ds where f: "render_exprs es @ ?rest = d # ds" "d = CHR ''-'' \<or> iswdigit d"
      using render_exprs_first [OF False, of ?rest] by auto
    have body: "dropWhile iswspace (render_exprs es @ ?rest) = render_exprs es @ ?rest"
      unfolding f(1) using f(2) iswdigit_not_space [of d] by (auto simp: iswspace_def)
    have r: "\<not> iswdigit (peek ?rest)" "peek (dropWhile iswspace ?rest) \<noteq> CHR ''.''"
      "dropWhile iswspace ?rest = junk"
      using j by (simp_all add: peek_def iswdigit_def iswspace_def)
    have w: "int n < 2 ^ 63" "list_all (expr_within_long n) es"
      "0 + int (length (listed_indexes n es)) \<le> INT_MAX"
      using assms(2) by (simp_all add: exprs_within_limits_def)
    have "parse_index indexes (name @ CHR ''['' # render_exprs es @ ?rest) name n
        = parse_index_loop n (render_exprs es @ ?rest) indexes 0"
      unfolding parse_index_enter [OF assms(1)] body ..
    also have "\<dots> = parse_index_loop n junk (indexes @ listed_indexes n es)
                        (0 + int (length (listed_indexes n es)))"
      using parse_index_loop_exprs_then [OF w(1) r(1,2) False w(2,3), of indexes]
      unfolding r(3) .
    finally show ?thesis
      using False parse_index_loop_unreadable [OF assms(3)]
      by (simp add: broken_slice_def)
  qed
qed

lemma takeWhile_broken_slice:
  "plain_name name \<Longrightarrow> takeWhile (\<lambda>c. c \<noteq> CHR ''['') (broken_slice name es junk) = name"
  unfolding broken_slice_def by (rule takeWhile_plain_name)

text \<open>
  C8, as the code has it. In query mode, when every target is one the parser takes
  (the index list of a sliced name is a list, not empty, of integers and ranges
  within the limits of the machine integers), the status is the sum over the
  targets of the things that do not exist: 1 for a bare name that is absent in the
  resolved scope, and for a sliced name the number of indexes listed below 1 or
  above the length of the array; nothing is written and the store is not changed.
  When such targets are followed by a sliced name in whose index list, after any
  number of such integers and ranges, comes a text that is not an index, the status
  is 1 whatever the count: the error and the usage are written and the later
  arguments are not looked at. A query of a missing
  \<open>foo\<close> returns 1, and \<open>foo[1 2]\<close> on a \<open>foo\<close> of one element returns 1.
\<close>

theorem builtin_set_query_counts_missing:
  assumes "wgetopt_loop X cmd opts initial_flags = Inl f"
    and "query f" and "\<not> show_mode f" and "\<not> erase f" and "\<not> list_mode f"
    and "\<not> (of_bool (local f) + of_bool (global f) + of_bool (universal f) :: nat) > 1"
    and "\<not> (exportv f \<and> unexport f)"
    and "\<forall>t\<in>set targets. target_well_formed X st (scope_of_flags f) t"
    and "sum_list (map (target_missing X st (scope_of_flags f)) targets) \<le> INT_MAX"
  shows "builtin_set X st cmd opts (map render_target targets)
           = Some \<lparr>status = sum_list (map (target_missing X st (scope_of_flags f)) targets),
                   vars = st, stdout = [], stderr = []\<rparr>
       \<and> (\<forall>name es junk later.
            plain_name name
            \<and> exprs_within_limits (length (target_array X st (scope_of_flags f) name)) es
            \<and> unreadable_index junk \<longrightarrow>
            builtin_set X st cmd opts
              (map render_target targets @ broken_slice name es junk # later)
            = Some \<lparr>status = 1, vars = st, stdout = [],
                    stderr = [''set: Invalid index starting at '' @ [CHR 0x27] @ junk
                                @ [CHR 0x27] @ [CHR 0x0A],
                              builtin_print_help X cmd]\<rparr>)
       \<and> builtin_set (example_world False 0) [] ''set'' [(CHR ''q'', ''-q'')] [''foo'']
           = Some \<lparr>status = 1, vars = [], stdout = [], stderr = []\<rparr>
       \<and> builtin_set (example_world False 0) [(''foo'', ''x'')] ''set'' [(CHR ''q'', ''-q'')]
            [''foo[1 2]'']
           = Some \<lparr>status = 1, vars = [(''foo'', ''x'')], stdout = [], stderr = []\<rparr>"
proof -
  let ?scope = "scope_of_flags f"
  let ?sum = "sum_list (map (target_missing X st ?scope) targets)"
  have run: "builtin_set X st cmd opts argv
      = map_option (\<lambda>(retcode, err). \<lparr>status = retcode, vars = st, stdout = [], stderr = err\<rparr>)
          (query_loop X st cmd ?scope argv 0)" for argv
    using assms(1-7) by (auto simp: builtin_set_def Let_def)
  have q: "query_loop X st cmd ?scope (map render_target targets @ rest) 0
      = query_loop X st cmd ?scope rest ?sum" for rest
    using query_loop_targets [OF assms(8), of 0 cmd rest] assms(9) by simp
  have a: "builtin_set X st cmd opts (map render_target targets)
           = Some \<lparr>status = ?sum, vars = st, stdout = [], stderr = []\<rparr>"
    unfolding run using q [of "[]"] by simp
  have b: "builtin_set X st cmd opts
              (map render_target targets @ broken_slice name es junk # later)
            = Some \<lparr>status = 1, vars = st, stdout = [],
                    stderr = [''set: Invalid index starting at '' @ [CHR 0x27] @ junk
                                @ [CHR 0x27] @ [CHR 0x0A],
                              builtin_print_help X cmd]\<rparr>"
    if "plain_name name"
      and "exprs_within_limits (length (target_array X st ?scope name)) es"
      and "unreadable_index junk" for name es junk later
  proof -
    have d: "takeWhile (\<lambda>c. c \<noteq> CHR ''['') (broken_slice name es junk) = name"
      by (rule takeWhile_broken_slice [OF that(1)])
    have br: "CHR ''['' \<in> set (broken_slice name es junk)" by (simp add: broken_slice_def)
    note p = parse_index_broken_slice [OF that, of "[]"]
    have "query_loop X st cmd ?scope (broken_slice name es junk # later) ?sum
        = Some (1, [''set: Invalid index starting at '' @ [CHR 0x27] @ junk @ [CHR 0x27]
                      @ [CHR 0x0A],
                    builtin_print_help X cmd])"
      by (simp add: d br target_array_def [symmetric] p Let_def)
    then show ?thesis
      unfolding run using q [of "broken_slice name es junk # later"] by simp
  qed
  have e1: "builtin_set (example_world False 0) [] ''set'' [(CHR ''q'', ''-q'')] [''foo'']
           = Some \<lparr>status = 1, vars = [], stdout = [], stderr = []\<rparr>"
    by code_simp
  have e2: "builtin_set (example_world False 0) [(''foo'', ''x'')] ''set'' [(CHR ''q'', ''-q'')]
            [''foo[1 2]'']
           = Some \<lparr>status = 1, vars = [(''foo'', ''x'')], stdout = [], stderr = []\<rparr>"
    by code_simp
  show ?thesis using a b e1 e2 by blast
qed

text \<open>
  The statement of the specification, that the status of a query is the count of
  what is missing, does not hold when an index list does not parse: with nothing
  set, the three bare names of \<open>set -q a b foo[x] c\<close> are all missing, and the
  status is 1.
\<close>

theorem builtin_set_query_parse_error_is_not_a_count:
  "builtin_set (example_world False 0) [] ''set'' [(CHR ''q'', ''-q'')]
     [''a'', ''b'', ''foo[x]'', ''c'']
     = Some \<lparr>status = 1, vars = [], stdout = [],
             stderr = [''set: Invalid index starting at '' @ [CHR 0x27] @ ''x]'' @ [CHR 0x27]
                         @ [CHR 0x0A],
                       ''(help for set)'' @ [CHR 0x0A]]\<rparr>
   \<and> \<not> env_exist (example_world False 0) [] ''a'' {ENV_USER}
   \<and> \<not> env_exist (example_world False 0) [] ''b'' {ENV_USER}
   \<and> \<not> env_exist (example_world False 0) [] ''c'' {ENV_USER}"
  by code_simp

theorem builtin_set_query_counts_missing_witness:
  "builtin_set (example_world False 0)
     [(''bar'', ''x''), (''baz'', ''p'' @ [ARRAY_SEP] @ ''q'' @ [ARRAY_SEP] @ ''r'')]
     ''set'' [(CHR ''q'', ''-q'')] [''foo'', ''bar[1 2]'', ''baz[-1 3..5]'']
   = Some \<lparr>status = 4,
           vars = [(''bar'', ''x''), (''baz'', ''p'' @ [ARRAY_SEP] @ ''q'' @ [ARRAY_SEP] @ ''r'')],
           stdout = [], stderr = []\<rparr>
   \<and> builtin_set (example_world False 0)
     [(''bar'', ''x''), (''baz'', ''p'' @ [ARRAY_SEP] @ ''q'' @ [ARRAY_SEP] @ ''r'')]
     ''set'' [(CHR ''q'', ''-q'')]
     [''foo'', ''bar[1 2]'', ''baz[-1 3..5]'', ''bar[2 7..9 y]'', ''foo'']
   = Some \<lparr>status = 1,
           vars = [(''bar'', ''x''), (''baz'', ''p'' @ [ARRAY_SEP] @ ''q'' @ [ARRAY_SEP] @ ''r'')],
           stdout = [],
           stderr = [''set: Invalid index starting at '' @ [CHR 0x27] @ ''y]'' @ [CHR 0x27]
                       @ [CHR 0x0A],
                     ''(help for set)'' @ [CHR 0x0A]]\<rparr>"
proof -
  let ?X = "example_world False 0"
  let ?st = "[(''bar'', ''x''), (''baz'', ''p'' @ [ARRAY_SEP] @ ''q'' @ [ARRAY_SEP] @ ''r'')]"
  let ?f = "initial_flags\<lparr>query := True, preserve_failure_exit_status := False\<rparr>"
  let ?targets = "[Bare ''foo'', Sliced ''bar'' [Index 1, Index 2],
                   Sliced ''baz'' [Index (- 1), Range 3 5]]"
  have o: "wgetopt_loop ?X ''set'' [(CHR ''q'', ''-q'')] initial_flags = Inl ?f" by simp
  have h: "query ?f" "\<not> show_mode ?f" "\<not> erase ?f" "\<not> list_mode ?f"
    "\<not> (of_bool (local ?f) + of_bool (global ?f) + of_bool (universal ?f) :: nat) > 1"
    "\<not> (exportv ?f \<and> unexport ?f)"
    by (simp_all add: initial_flags_def)
  have w: "\<forall>t\<in>set ?targets. target_well_formed ?X ?st (scope_of_flags ?f) t" by code_simp
  have s: "sum_list (map (target_missing ?X ?st (scope_of_flags ?f)) ?targets) = 4"
    by code_simp
  have le: "sum_list (map (target_missing ?X ?st (scope_of_flags ?f)) ?targets) \<le> INT_MAX"
    unfolding s by (simp add: INT_MAX_def)
  have r: "map render_target ?targets = [''foo'', ''bar[1 2]'', ''baz[-1 3..5]'']" by code_simp
  have j: "plain_name ''bar''
      \<and> exprs_within_limits (length (target_array ?X ?st (scope_of_flags ?f) ''bar''))
          [Index 2, Range 7 9]
      \<and> unreadable_index ''y]''"
    by code_simp
  have bs: "broken_slice ''bar'' [Index 2, Range 7 9] ''y]'' = ''bar[2 7..9 y]''" by code_simp
  have usage: "builtin_print_help ?X ''set'' = ''(help for set)'' @ [CHR 0x0A]"
    by (simp add: example_world_def)
  note t = builtin_set_query_counts_missing [OF o h w le]
  have a: "builtin_set ?X ?st ''set'' [(CHR ''q'', ''-q'')] [''foo'', ''bar[1 2]'', ''baz[-1 3..5]'']
      = Some \<lparr>status = 4, vars = ?st, stdout = [], stderr = []\<rparr>"
    using t [THEN conjunct1] unfolding r s .
  have b: "builtin_set ?X ?st ''set'' [(CHR ''q'', ''-q'')]
        ([''foo'', ''bar[1 2]'', ''baz[-1 3..5]''] @ ''bar[2 7..9 y]'' # [''foo''])
      = Some \<lparr>status = 1, vars = ?st, stdout = [],
              stderr = [''set: Invalid index starting at '' @ [CHR 0x27] @ ''y]'' @ [CHR 0x27]
                          @ [CHR 0x0A],
                        ''(help for set)'' @ [CHR 0x0A]]\<rparr>"
    using t [THEN conjunct2, THEN conjunct1, rule_format, OF j, of "[''foo'']"]
    unfolding r usage bs .
  show ?thesis using a b by simp
qed

section \<open>Printing the variables\<close>

lemma wgetopt_loop_shorten_ok:
  "wgetopt_loop X cmd opts f0 = Inl f \<Longrightarrow>
   shorten_ok f \<longleftrightarrow> shorten_ok f0 \<and> CHR ''L'' \<notin> fst ` set opts"
proof (induction opts arbitrary: f0)
  case Nil
  then show ?case by simp
next
  case (Cons o1 opts)
  obtain opt arg where o1: "o1 = (opt, arg)" by (cases o1)
  show ?case
    using Cons.prems Cons.IH unfolding o1
    by (simp split: if_splits)
qed

lemma print_variable_line:
  "concat (print_variable X st True True shorten scope key)
     = listing_line X st scope (\<not> shorten) key"
  by (cases "env_get_string X st key scope")
     (simp_all add: print_variable_def listing_line_def shown_value_def Let_def)

lemma print_variables_listing:
  "concat (print_variables X st True True shorten scope) = listing X st scope (\<not> shorten)"
proof -
  have "concat (concat (map (print_variable X st True True shorten scope) ks))
      = concat (map (listing_line X st scope (\<not> shorten)) ks)" for ks
    by (induction ks) (simp_all add: print_variable_line)
  then show ?thesis by (simp add: print_variables_def listing_def)
qed

text \<open>
  C10. The listing with values, \<open>set\<close> with no argument, writes for every
  variable of the scope, in the order of the names, its name and its value; every
  value longer than 64 characters is cut to its first 60 characters (which go
  through the escaping) and followed by one ellipsis character, unless the option
  \<open>L\<close> (\<open>--long\<close>) is among the options: then every value is written whole. A
  value of at most 64 characters is written whole in both cases. The same holds of
  \<open>print_variables\<close> for every scope.
\<close>

theorem print_variables_shortens_long_values:
  assumes "wgetopt_loop X cmd opts initial_flags = Inl f"
    and "\<not> show_mode f" and "\<not> query f" and "\<not> list_mode f" and "\<not> erase f"
    and "\<not> (of_bool (local f) + of_bool (global f) + of_bool (universal f) :: nat) > 1"
    and "\<not> (exportv f \<and> unexport f)"
  shows "(\<exists>r. builtin_set X st cmd opts [] = Some r
            \<and> status r = STATUS_CMD_OK \<and> vars r = st \<and> stderr r = []
            \<and> concat (stdout r)
                = listing X st (scope_of_flags f) (CHR ''L'' \<in> fst ` set opts))
       \<and> concat (print_variables X st True True shorten scope)
           = concat (map (\<lambda>key. escape_string X key
                                  @ (case env_get_string X st key scope of
                                       None \<Rightarrow> []
                                     | Some v \<Rightarrow>
                                         '' ''
                                         @ (if shorten \<and> 64 < length v
                                            then expand_escape_variable X (take 60 v)
                                                 @ [ellipsis_char X]
                                            else expand_escape_variable X v))
                                  @ [CHR 0x0A])
                       (sort (env_get_names X st scope)))"
proof -
  have s: "shorten_ok f \<longleftrightarrow> CHR ''L'' \<notin> fst ` set opts"
    using wgetopt_loop_shorten_ok [OF assms(1)] by (simp add: initial_flags_def)
  have "builtin_set X st cmd opts []
      = Some \<lparr>status = STATUS_CMD_OK, vars = st,
              stdout = print_variables X st True True (shorten_ok f) (scope_of_flags f),
              stderr = []\<rparr>"
    using assms by (simp add: builtin_set_def Let_def)
  then have a: "\<exists>r. builtin_set X st cmd opts [] = Some r
            \<and> status r = STATUS_CMD_OK \<and> vars r = st \<and> stderr r = []
            \<and> concat (stdout r)
                = listing X st (scope_of_flags f) (CHR ''L'' \<in> fst ` set opts)"
    using print_variables_listing [of X st "shorten_ok f" "scope_of_flags f"] s by simp
  have b: "listing X st scope (\<not> shorten)
      = concat (map (\<lambda>key. escape_string X key
                                  @ (case env_get_string X st key scope of
                                       None \<Rightarrow> []
                                     | Some v \<Rightarrow>
                                         '' ''
                                         @ (if shorten \<and> 64 < length v
                                            then expand_escape_variable X (take 60 v)
                                                 @ [ellipsis_char X]
                                            else expand_escape_variable X v))
                                  @ [CHR 0x0A])
                       (sort (env_get_names X st scope)))"
    unfolding listing_def
    by (rule arg_cong [where f = concat], rule map_cong)
       (auto simp: listing_line_def shown_value_def split: option.splits)
  show ?thesis using a print_variables_listing [of X st shorten scope] b by simp
qed

theorem print_variables_shortens_long_values_witness:
  "map_option (\<lambda>r. concat (stdout r))
     (builtin_set (example_world False 0)
        [(''c'', replicate 70 (CHR ''c'')), (''a'', replicate 65 (CHR ''a'')),
         (''b'', replicate 64 (CHR ''b''))] ''set'' [] [])
     = Some (''a '' @ [CHR 0x27] @ replicate 60 (CHR ''a'') @ [CHR 0x27] @ ''$'' @ [CHR 0x0A]
             @ ''b '' @ [CHR 0x27] @ replicate 64 (CHR ''b'') @ [CHR 0x27] @ [CHR 0x0A]
             @ ''c '' @ [CHR 0x27] @ replicate 60 (CHR ''c'') @ [CHR 0x27] @ ''$'' @ [CHR 0x0A])
   \<and> map_option (\<lambda>r. concat (stdout r))
     (builtin_set (example_world False 0)
        [(''c'', replicate 70 (CHR ''c'')), (''a'', replicate 65 (CHR ''a'')),
         (''b'', replicate 64 (CHR ''b''))] ''set'' [(CHR ''L'', ''--long'')] [])
     = Some (''a '' @ [CHR 0x27] @ replicate 65 (CHR ''a'') @ [CHR 0x27] @ [CHR 0x0A]
             @ ''b '' @ [CHR 0x27] @ replicate 64 (CHR ''b'') @ [CHR 0x27] @ [CHR 0x0A]
             @ ''c '' @ [CHR 0x27] @ replicate 70 (CHR ''c'') @ [CHR 0x27] @ [CHR 0x0A])"
proof -
  let ?X = "example_world False 0"
  let ?st = "[(''c'', replicate 70 (CHR ''c'')), (''a'', replicate 65 (CHR ''a'')),
              (''b'', replicate 64 (CHR ''b''))]"
  let ?L = "[(CHR ''L'', ''--long'')]"
  let ?fL = "initial_flags\<lparr>shorten_ok := False\<rparr>"
  have o0: "wgetopt_loop ?X ''set'' [] initial_flags = Inl initial_flags" by simp
  have oL: "wgetopt_loop ?X ''set'' ?L initial_flags = Inl ?fL" by simp
  have h0: "\<not> show_mode initial_flags" "\<not> query initial_flags"
      "\<not> list_mode initial_flags" "\<not> erase initial_flags"
      "\<not> (of_bool (local initial_flags) + of_bool (global initial_flags)
            + of_bool (universal initial_flags) :: nat) > 1"
      "\<not> (exportv initial_flags \<and> unexport initial_flags)"
    by (simp_all add: initial_flags_def)
  have hL: "\<not> show_mode ?fL" "\<not> query ?fL" "\<not> list_mode ?fL" "\<not> erase ?fL"
      "\<not> (of_bool (local ?fL) + of_bool (global ?fL) + of_bool (universal ?fL) :: nat) > 1"
      "\<not> (exportv ?fL \<and> unexport ?fL)"
    by (simp_all add: initial_flags_def)
  note t0 = print_variables_shortens_long_values [OF o0 h0, of ?st True "{}", THEN conjunct1]
  note tL = print_variables_shortens_long_values [OF oL hL, of ?st True "{}", THEN conjunct1]
  have p0: "listing ?X ?st (scope_of_flags initial_flags) (CHR ''L'' \<in> fst ` set ([] :: (char \<times> string) list))
      = ''a '' @ [CHR 0x27] @ replicate 60 (CHR ''a'') @ [CHR 0x27] @ ''$'' @ [CHR 0x0A]
        @ ''b '' @ [CHR 0x27] @ replicate 64 (CHR ''b'') @ [CHR 0x27] @ [CHR 0x0A]
        @ ''c '' @ [CHR 0x27] @ replicate 60 (CHR ''c'') @ [CHR 0x27] @ ''$'' @ [CHR 0x0A]"
    by code_simp
  have pL: "listing ?X ?st (scope_of_flags ?fL) (CHR ''L'' \<in> fst ` set ?L)
      = ''a '' @ [CHR 0x27] @ replicate 65 (CHR ''a'') @ [CHR 0x27] @ [CHR 0x0A]
        @ ''b '' @ [CHR 0x27] @ replicate 64 (CHR ''b'') @ [CHR 0x27] @ [CHR 0x0A]
        @ ''c '' @ [CHR 0x27] @ replicate 70 (CHR ''c'') @ [CHR 0x27] @ [CHR 0x0A]"
    by code_simp
  from t0 obtain r0 where r0: "builtin_set ?X ?st ''set'' [] [] = Some r0"
    "concat (stdout r0) = listing ?X ?st (scope_of_flags initial_flags) (CHR ''L'' \<in> fst ` set ([] :: (char \<times> string) list))"
    by blast
  from tL obtain rL where rL: "builtin_set ?X ?st ''set'' ?L [] = Some rL"
    "concat (stdout rL) = listing ?X ?st (scope_of_flags ?fL) (CHR ''L'' \<in> fst ` set ?L)"
    by blast
  show ?thesis unfolding r0(1) rL(1) using r0(2) rL(2) unfolding p0 pL by simp
qed

section \<open>Failures and the error stream\<close>


















subsection \<open>The exit status of the previous command\<close>











lemma wgetopt_loop_erase:
  "wgetopt_loop X cmd opts f0 = Inl f \<Longrightarrow>
   erase f0 \<longrightarrow> \<not> preserve_failure_exit_status f0 \<Longrightarrow>
   erase f \<longrightarrow> \<not> preserve_failure_exit_status f"
proof (induction opts arbitrary: f0)
  case Nil
  then show ?case by simp
next
  case (Cons o1 opts)
  obtain opt arg where o1: "o1 = (opt, arg)" by (cases o1)
  have "\<exists>g. wgetopt_loop X cmd opts g = Inl f
      \<and> (erase g \<longrightarrow> \<not> preserve_failure_exit_status g)"
    using Cons.prems unfolding o1
    by (simp split: if_splits) (rule exI, rule conjI, assumption, simp)+
  then show ?case using Cons.IH by blast
qed






end
